theory Spec2Isabelle
  imports Main
begin

section \<open>The element type and the environment\<close>

text \<open>
  \<^verbatim>\<open>vector.h\<close> is a class template over an element type \<open>T\<close>. The
  template parameter is a parameter of the model: the element values are the type
  variable \<open>'a\<close>, and what the code asks of \<open>T\<close> is the record \<open>traits\<close>:
  \<^item> \<open>nothrow_move_constructible\<close> is \<^verbatim>\<open>std::is_nothrow_move_constructible_v<T>\<close>,
  \<^item> \<open>copy_constructible\<close> is \<^verbatim>\<open>std::is_copy_constructible_v<T>\<close>,
  \<^item> \<open>nothrow_move_assignable\<close> is \<^verbatim>\<open>std::is_nothrow_move_assignable_v<T>\<close>,
  \<^item> \<open>moved_from x\<close> is the value a move leaves in an object that held \<open>x\<close>
    (for \<^verbatim>\<open>int\<close> it is \<open>x\<close>, for \<^verbatim>\<open>std::string\<close> the empty string),
  \<^item> \<open>value_init\<close> is the value of \<^verbatim>\<open>T()\<close>.
  A copy gives the destination the value of the source and leaves the source alone; a
  move gives the destination the value of the source and leaves \<open>moved_from\<close> of it in
  the source. An operation of \<open>T\<close> that throws leaves its operands as they were.
\<close>

record 'a traits =
  nothrow_move_constructible :: bool
  copy_constructible :: bool
  nothrow_move_assignable :: bool
  moved_from :: "'a \<Rightarrow> 'a"
  value_init :: 'a

text \<open>
  The exceptions of the model are named after the step that throws: \<^verbatim>\<open>operator new\<close>
  (\<open>bad_alloc\<close>), the constructor that \<^verbatim>\<open>T(std::forward<Args>(args)...)\<close> selects
  (\<open>args_ctor_exn\<close>), the copy and move constructors, the value initialisation, and the
  copy and move assignments of \<open>T\<close>.
\<close>

datatype exn =
  bad_alloc | args_ctor_exn | copy_ctor_exn | move_ctor_exn | value_ctor_exn
  | copy_assign_exn | move_assign_exn

text \<open>
  Whether a step that may throw does throw is read from a schedule, one decision per
  such step in the order the code runs them (\<open>True\<close>: it throws); past the end of the
  schedule nothing throws. A schedule \<open>replicate n False @ [True]\<close> is an element type
  that fails on its \<open>n+1\<close>-th fallible operation. \<open>next_addr\<close> is the address the
  next successful \<^verbatim>\<open>operator new\<close> returns.
\<close>

record env =
  sched :: "bool list"
  next_addr :: nat

definition raises :: "env \<Rightarrow> bool \<times> env" where
  "raises e = (case sched e of [] \<Rightarrow> (False, e) | b # bs \<Rightarrow> (b, e\<lparr>sched := bs\<rparr>))"

text \<open>
  A call returns a value in a state, leaves by an exception in a state, or has
  undefined behaviour (a read or write outside a block, the use of an object that is
  not constructed, pointer arithmetic across blocks).
\<close>

datatype ('r, 's) outcome = Returned 'r 's | Thrown exn 's | Undefined

section \<open>Memory cells and the algorithms of the standard library\<close>

text \<open>
  A cell of a block is raw memory or holds a constructed object. A \<^verbatim>\<open>T*\<close> is the
  address of a block (\<open>None\<close> is \<^verbatim>\<open>nullptr\<close>) and an index into it.
  The functions of \<^verbatim>\<open><memory>\<close> and \<^verbatim>\<open><algorithm>\<close> that the vector calls
  are modelled as the C++ standard specifies them, on the cells of the blocks their
  pointer arguments point into.
\<close>

datatype 'a slot = Raw | Obj 'a

type_synonym pointer = "nat option \<times> nat"

definition obj_at :: "'a slot list \<Rightarrow> nat \<Rightarrow> 'a option" where
  "obj_at m i = (if i < length m then (case m ! i of Raw \<Rightarrow> None | Obj x \<Rightarrow> Some x) else None)"

text \<open>
  \<^verbatim>\<open>pos - begin()\<close>, converted to \<^verbatim>\<open>size_t\<close>: defined for two pointers into
  the same block; a negative difference is no offset into the block.
\<close>

definition ptr_diff :: "pointer \<Rightarrow> pointer \<Rightarrow> nat option" where
  "ptr_diff p q = (if fst p = fst q \<and> snd q \<le> snd p then Some (snd p - snd q) else None)"

text \<open>
  Placement new at cell \<open>i\<close> of a block, with a constructor that gives the value \<open>x\<close>
  and, when \<open>can_throw\<close>, may throw \<open>ex\<close>.
\<close>

definition construct_at :: "exn \<Rightarrow> bool \<Rightarrow> 'a slot list \<Rightarrow> nat \<Rightarrow> 'a \<Rightarrow> env \<Rightarrow> (unit, 'a slot list \<times> env) outcome" where
  "construct_at ex can_throw m i x e =
     (if length m \<le> i then Undefined
      else (case (if can_throw then raises e else (False, e)) of
              (True, e') \<Rightarrow> Thrown ex (m, e')
            | (False, e') \<Rightarrow> Returned () (m[i := Obj x], e')))"

text \<open>Assignment to the object in cell \<open>i\<close>; assigning to raw memory is undefined.\<close>

definition assign_at :: "exn \<Rightarrow> bool \<Rightarrow> 'a slot list \<Rightarrow> nat \<Rightarrow> 'a \<Rightarrow> env \<Rightarrow> (unit, 'a slot list \<times> env) outcome" where
  "assign_at ex can_throw m i x e =
     (case obj_at m i of
        None \<Rightarrow> Undefined
      | Some _ \<Rightarrow>
          (case (if can_throw then raises e else (False, e)) of
             (True, e') \<Rightarrow> Thrown ex (m, e')
           | (False, e') \<Rightarrow> Returned () (m[i := Obj x], e')))"

text \<open>\<^verbatim>\<open>std::destroy_at\<close>, \<^verbatim>\<open>std::destroy_n\<close>: destructors do not throw.\<close>

definition destroy_at :: "'a slot list \<Rightarrow> nat \<Rightarrow> 'a slot list option" where
  "destroy_at m i = (case obj_at m i of None \<Rightarrow> None | Some _ \<Rightarrow> Some (m[i := Raw]))"

fun destroy_n :: "'a slot list \<Rightarrow> nat \<Rightarrow> nat \<Rightarrow> 'a slot list option" where
  "destroy_n m first 0 = Some m"
| "destroy_n m first (Suc n) =
     (case destroy_at m first of None \<Rightarrow> None | Some m' \<Rightarrow> destroy_n m' (Suc first) n)"

text \<open>
  The roll-back of the \<^verbatim>\<open>std::uninitialized_*\<close> algorithms: the objects they
  constructed in cells \<open>[d_first, current)\<close> are destroyed before the exception leaves.
  These cells hold objects when the roll-back runs, so the destruction is defined.
\<close>

definition rollback :: "'a slot list \<Rightarrow> nat \<Rightarrow> nat \<Rightarrow> 'a slot list" where
  "rollback m d_first current =
     (case destroy_n m d_first (current - d_first) of None \<Rightarrow> m | Some m' \<Rightarrow> m')"

text \<open>
  \<^verbatim>\<open>std::uninitialized_copy_n(first, count, d_first)\<close> from a block \<open>src\<close> into
  another block \<open>dst\<close>: \<open>current\<close> is the cell constructed next.
\<close>

fun uninit_copy_loop :: "'a slot list \<Rightarrow> nat \<Rightarrow> nat \<Rightarrow> 'a slot list \<Rightarrow> nat \<Rightarrow> nat \<Rightarrow> env
    \<Rightarrow> (unit, 'a slot list \<times> env) outcome" where
  "uninit_copy_loop src first 0 dst d_first current e = Returned () (dst, e)"
| "uninit_copy_loop src first (Suc count) dst d_first current e =
     (case obj_at src first of
        None \<Rightarrow> Undefined
      | Some x \<Rightarrow>
          (case construct_at copy_ctor_exn True dst current x e of
             Undefined \<Rightarrow> Undefined
           | Thrown ex (dst', e') \<Rightarrow> Thrown ex (rollback dst' d_first current, e')
           | Returned _ (dst', e') \<Rightarrow>
               uninit_copy_loop src (Suc first) count dst' d_first (Suc current) e'))"

definition uninitialized_copy_n :: "'a slot list \<Rightarrow> nat \<Rightarrow> nat \<Rightarrow> 'a slot list \<Rightarrow> nat \<Rightarrow> env
    \<Rightarrow> (unit, 'a slot list \<times> env) outcome" where
  "uninitialized_copy_n src first count dst d_first e =
     uninit_copy_loop src first count dst d_first d_first e"

text \<open>
  \<^verbatim>\<open>std::uninitialized_move_n(first, count, d_first)\<close>: each move construction
  leaves \<open>moved_from\<close> in the source cell, also when a later one throws.
\<close>

fun uninit_move_loop :: "'a traits \<Rightarrow> 'a slot list \<Rightarrow> nat \<Rightarrow> nat \<Rightarrow> 'a slot list \<Rightarrow> nat \<Rightarrow> nat \<Rightarrow> env
    \<Rightarrow> (unit, ('a slot list \<times> 'a slot list) \<times> env) outcome" where
  "uninit_move_loop tr src first 0 dst d_first current e = Returned () ((src, dst), e)"
| "uninit_move_loop tr src first (Suc count) dst d_first current e =
     (case obj_at src first of
        None \<Rightarrow> Undefined
      | Some x \<Rightarrow>
          (case construct_at move_ctor_exn (\<not> nothrow_move_constructible tr) dst current x e of
             Undefined \<Rightarrow> Undefined
           | Thrown ex (dst', e') \<Rightarrow> Thrown ex ((src, rollback dst' d_first current), e')
           | Returned _ (dst', e') \<Rightarrow>
               uninit_move_loop tr (src[first := Obj (moved_from tr x)]) (Suc first) count
                 dst' d_first (Suc current) e'))"

definition uninitialized_move_n :: "'a traits \<Rightarrow> 'a slot list \<Rightarrow> nat \<Rightarrow> nat \<Rightarrow> 'a slot list \<Rightarrow> nat \<Rightarrow> env
    \<Rightarrow> (unit, ('a slot list \<times> 'a slot list) \<times> env) outcome" where
  "uninitialized_move_n tr src first count dst d_first e =
     uninit_move_loop tr src first count dst d_first d_first e"

text \<open>\<^verbatim>\<open>std::uninitialized_value_construct_n(first, count)\<close>.\<close>

fun uninit_value_loop :: "'a traits \<Rightarrow> 'a slot list \<Rightarrow> nat \<Rightarrow> nat \<Rightarrow> nat \<Rightarrow> env
    \<Rightarrow> (unit, 'a slot list \<times> env) outcome" where
  "uninit_value_loop tr m first current 0 e = Returned () (m, e)"
| "uninit_value_loop tr m first current (Suc count) e =
     (case construct_at value_ctor_exn True m current (value_init tr) e of
        Undefined \<Rightarrow> Undefined
      | Thrown ex (m', e') \<Rightarrow> Thrown ex (rollback m' first current, e')
      | Returned _ (m', e') \<Rightarrow> uninit_value_loop tr m' first (Suc current) count e')"

definition uninitialized_value_construct_n :: "'a traits \<Rightarrow> 'a slot list \<Rightarrow> nat \<Rightarrow> nat \<Rightarrow> env
    \<Rightarrow> (unit, 'a slot list \<times> env) outcome" where
  "uninitialized_value_construct_n tr m first count e = uninit_value_loop tr m first first count e"

text \<open>
  \<^verbatim>\<open>std::copy(first, first + count, d_first)\<close> from a block \<open>src\<close> into another
  block \<open>dst\<close>, by copy assignment; no roll-back.
\<close>

fun copy_loop :: "'a slot list \<Rightarrow> nat \<Rightarrow> nat \<Rightarrow> 'a slot list \<Rightarrow> nat \<Rightarrow> env
    \<Rightarrow> (unit, 'a slot list \<times> env) outcome" where
  "copy_loop src first 0 dst d_first e = Returned () (dst, e)"
| "copy_loop src first (Suc count) dst d_first e =
     (case obj_at src first of
        None \<Rightarrow> Undefined
      | Some x \<Rightarrow>
          (case assign_at copy_assign_exn True dst d_first x e of
             Undefined \<Rightarrow> Undefined
           | Thrown ex s \<Rightarrow> Thrown ex s
           | Returned _ (dst', e') \<Rightarrow> copy_loop src (Suc first) count dst' (Suc d_first) e'))"

text \<open>
  Move assignment \<^verbatim>\<open>m[d] = std::move(m[s])\<close> between two cells of one block.
\<close>

definition move_assign :: "'a traits \<Rightarrow> 'a slot list \<Rightarrow> nat \<Rightarrow> nat \<Rightarrow> env
    \<Rightarrow> (unit, 'a slot list \<times> env) outcome" where
  "move_assign tr m d s e =
     (case obj_at m s of
        None \<Rightarrow> Undefined
      | Some x \<Rightarrow>
          (case assign_at move_assign_exn (\<not> nothrow_move_assignable tr) m d x e of
             Undefined \<Rightarrow> Undefined
           | Thrown ex s' \<Rightarrow> Thrown ex s'
           | Returned _ (m', e') \<Rightarrow> Returned () (m'[s := Obj (moved_from tr x)], e')))"

text \<open>
  \<^verbatim>\<open>std::move(first, lst, d_first)\<close> within one block, front to back;
  \<open>count\<close> is \<open>lst - first\<close>.
\<close>

fun move_loop :: "'a traits \<Rightarrow> 'a slot list \<Rightarrow> nat \<Rightarrow> nat \<Rightarrow> nat \<Rightarrow> env
    \<Rightarrow> (unit, 'a slot list \<times> env) outcome" where
  "move_loop tr m first 0 d_first e = Returned () (m, e)"
| "move_loop tr m first (Suc count) d_first e =
     (case move_assign tr m d_first first e of
        Undefined \<Rightarrow> Undefined
      | Thrown ex s \<Rightarrow> Thrown ex s
      | Returned _ (m', e') \<Rightarrow> move_loop tr m' (Suc first) count (Suc d_first) e')"

definition std_move :: "'a traits \<Rightarrow> 'a slot list \<Rightarrow> nat \<Rightarrow> nat \<Rightarrow> nat \<Rightarrow> env
    \<Rightarrow> (unit, 'a slot list \<times> env) outcome" where
  "std_move tr m first lst d_first e =
     (if lst < first then Undefined else move_loop tr m first (lst - first) d_first e)"

text \<open>
  \<^verbatim>\<open>std::move_backward(first, last, d_last)\<close> within one block, back to front:
  \<^verbatim>\<open>while (first != last) *(--d_last) = std::move(*(--last));\<close>
\<close>

fun move_backward_loop :: "'a traits \<Rightarrow> 'a slot list \<Rightarrow> nat \<Rightarrow> nat \<Rightarrow> nat \<Rightarrow> env
    \<Rightarrow> (unit, 'a slot list \<times> env) outcome" where
  "move_backward_loop tr m 0 lst d_last e = Returned () (m, e)"
| "move_backward_loop tr m (Suc count) lst d_last e =
     (if lst = 0 \<or> d_last = 0 then Undefined
      else (case move_assign tr m (d_last - 1) (lst - 1) e of
              Undefined \<Rightarrow> Undefined
            | Thrown ex s \<Rightarrow> Thrown ex s
            | Returned _ (m', e') \<Rightarrow> move_backward_loop tr m' count (lst - 1) (d_last - 1) e'))"

definition move_backward :: "'a traits \<Rightarrow> 'a slot list \<Rightarrow> nat \<Rightarrow> nat \<Rightarrow> nat \<Rightarrow> env
    \<Rightarrow> (unit, 'a slot list \<times> env) outcome" where
  "move_backward tr m first lst d_last e =
     (if lst < first then Undefined else move_backward_loop tr m (lst - first) lst d_last e)"

text \<open>
  \<^verbatim>\<open>std::uninitialized_copy(first, last, d_first)\<close>, between two blocks.
\<close>

definition uninitialized_copy :: "'a slot list \<Rightarrow> nat \<Rightarrow> nat \<Rightarrow> 'a slot list \<Rightarrow> nat \<Rightarrow> env
    \<Rightarrow> (unit, 'a slot list \<times> env) outcome" where
  "uninitialized_copy src first lst dst d_first e =
     (if lst < first then Undefined
      else uninit_copy_loop src first (lst - first) dst d_first d_first e)"

definition std_copy :: "'a slot list \<Rightarrow> nat \<Rightarrow> nat \<Rightarrow> 'a slot list \<Rightarrow> nat \<Rightarrow> env
    \<Rightarrow> (unit, 'a slot list \<times> env) outcome" where
  "std_copy src first lst dst d_first e =
     (if lst < first then Undefined else copy_loop src first (lst - first) dst d_first e)"

text \<open>
  The block that appears four times in the source (in \<^verbatim>\<open>Emplace\<close>,
  \<^verbatim>\<open>Reserve\<close> and both \<^verbatim>\<open>PushBack\<close>):
  \<^verbatim>\<open>if constexpr (std::is_nothrow_move_constructible_v<T> || !std::is_copy_constructible_v<T>)
    std::uninitialized_move_n(...); else std::uninitialized_copy_n(...);\<close>
  It returns the source block and the destination block.
\<close>

definition relocate_n :: "'a traits \<Rightarrow> 'a slot list \<Rightarrow> nat \<Rightarrow> nat \<Rightarrow> 'a slot list \<Rightarrow> nat \<Rightarrow> env
    \<Rightarrow> (unit, ('a slot list \<times> 'a slot list) \<times> env) outcome" where
  "relocate_n tr src first count dst d_first e =
     (if nothrow_move_constructible tr \<or> \<not> copy_constructible tr
      then uninitialized_move_n tr src first count dst d_first e
      else (case uninitialized_copy_n src first count dst d_first e of
              Undefined \<Rightarrow> Undefined
            | Thrown ex (dst', e') \<Rightarrow> Thrown ex ((src, dst'), e')
            | Returned _ (dst', e') \<Rightarrow> Returned () ((src, dst'), e')))"

section \<open>RawMemory\<close>

text \<open>
  The members \<^verbatim>\<open>buffer_\<close> and \<^verbatim>\<open>capacity_\<close> are \<open>buffer_m\<close> and
  \<open>capacity_m\<close> (a name cannot end in an underscore here). No member function copies
  \<^verbatim>\<open>buffer_\<close>: a block has one owner at a time, and the model keeps the cells of
  the block, \<open>block\<close>, with the pointer that owns it. \<^verbatim>\<open>size_t\<close> is \<open>nat\<close>:
  the only arithmetic on it that grows is \<^verbatim>\<open>size_ * 2\<close>, on the size of a
  block that was allocated, which is below \<open>2^63\<close> bytes (no object is larger than
  \<^verbatim>\<open>PTRDIFF_MAX\<close>), so the product does not wrap.
\<close>

record 'a RawMemory =
  buffer_m :: "nat option"
  capacity_m :: nat
  block :: "'a slot list"

definition RawMemory_default :: "'a RawMemory" where
  "RawMemory_default = \<lparr>buffer_m = None, capacity_m = 0, block = []\<rparr>"

definition Allocate :: "nat \<Rightarrow> env \<Rightarrow> (nat option \<times> 'a slot list, env) outcome" where
  "Allocate n e =
     (if n \<noteq> 0
      then (case raises e of
              (True, e') \<Rightarrow> Thrown bad_alloc e'
            | (False, e') \<Rightarrow>
                Returned (Some (next_addr e'), replicate n Raw) (e'\<lparr>next_addr := Suc (next_addr e')\<rparr>))
      else Returned (None, []) e)"

definition RawMemory_ctor :: "nat \<Rightarrow> env \<Rightarrow> ('a RawMemory, env) outcome" where
  "RawMemory_ctor capacity e =
     (case Allocate capacity e of
        Undefined \<Rightarrow> Undefined
      | Thrown ex e' \<Rightarrow> Thrown ex e'
      | Returned (p, cells) e' \<Rightarrow> Returned \<lparr>buffer_m = p, capacity_m = capacity, block = cells\<rparr> e')"

definition RawMemory_plus :: "'a RawMemory \<Rightarrow> nat \<Rightarrow> pointer" where
  "RawMemory_plus r offset = (buffer_m r, offset)"

definition RawMemory_Swap :: "'a RawMemory \<times> 'a RawMemory \<Rightarrow> 'a RawMemory \<times> 'a RawMemory" where
  "RawMemory_Swap p =
     (case p of (this, other) \<Rightarrow>
        (this\<lparr>buffer_m := buffer_m other, capacity_m := capacity_m other, block := block other\<rparr>,
         other\<lparr>buffer_m := buffer_m this, capacity_m := capacity_m this, block := block this\<rparr>))"

definition GetAddress :: "'a RawMemory \<Rightarrow> pointer" where
  "GetAddress r = (buffer_m r, 0)"

section \<open>Vector\<close>

text \<open>
  The members \<^verbatim>\<open>data_\<close> and \<^verbatim>\<open>size_\<close> are \<open>data_m\<close> and \<open>size_m\<close>;
  \<^verbatim>\<open>begin()\<close> and \<^verbatim>\<open>end()\<close> are \<open>begin_it\<close> and \<open>end_it\<close>. A member
  function that changes the vector takes the vector and the environment and gives them
  back in its outcome; where it leaves by an exception, the outcome holds the vector as
  the exception leaves it.
\<close>

record 'a Vector =
  data_m :: "'a RawMemory"
  size_m :: nat

definition Size :: "'a Vector \<Rightarrow> nat" where
  "Size v = size_m v"

definition Capacity :: "'a Vector \<Rightarrow> nat" where
  "Capacity v = capacity_m (data_m v)"

definition begin_it :: "'a Vector \<Rightarrow> pointer" where
  "begin_it v = GetAddress (data_m v)"

definition end_it :: "'a Vector \<Rightarrow> pointer" where
  "end_it v = (fst (GetAddress (data_m v)), snd (GetAddress (data_m v)) + size_m v)"

definition set_block :: "'a Vector \<Rightarrow> 'a slot list \<Rightarrow> 'a Vector" where
  "set_block v m = v\<lparr>data_m := (data_m v)\<lparr>block := m\<rparr>\<rparr>"

text \<open>\<^verbatim>\<open>operator[]\<close>: the object at an index, if there is one.\<close>

definition at_index :: "'a Vector \<Rightarrow> nat \<Rightarrow> 'a option" where
  "at_index v index = obj_at (block (data_m v)) index"

text \<open>The cells of the live range \<open>[0, size)\<close>.\<close>

definition contents :: "'a Vector \<Rightarrow> 'a slot list" where
  "contents v = take (size_m v) (block (data_m v))"

definition Vector_default :: "'a Vector" where
  "Vector_default = \<lparr>data_m = RawMemory_default, size_m = 0\<rparr>"

text \<open>
  \<^verbatim>\<open>~Vector()\<close>: \<^verbatim>\<open>std::destroy_n(data_.GetAddress(), size_)\<close>, then the
  block is released. \<open>None\<close> is undefined behaviour.
\<close>

definition Vector_dtor :: "'a Vector \<Rightarrow> unit option" where
  "Vector_dtor v = (case destroy_n (block (data_m v)) 0 (size_m v) of None \<Rightarrow> None | Some _ \<Rightarrow> Some ())"

text \<open>
  \<^verbatim>\<open>explicit Vector(size_t size)\<close> and \<^verbatim>\<open>Vector(const Vector& other)\<close>: when
  the construction of the elements throws, the members are released and no object exists.
\<close>

definition Vector_sized :: "'a traits \<Rightarrow> nat \<Rightarrow> env \<Rightarrow> ('a Vector, env) outcome" where
  "Vector_sized tr n e =
     (case RawMemory_ctor n e of
        Undefined \<Rightarrow> Undefined
      | Thrown ex e1 \<Rightarrow> Thrown ex e1
      | Returned d e1 \<Rightarrow>
          (case uninitialized_value_construct_n tr (block d) 0 n e1 of
             Undefined \<Rightarrow> Undefined
           | Thrown ex (_, e2) \<Rightarrow> Thrown ex e2
           | Returned _ (m, e2) \<Rightarrow> Returned \<lparr>data_m = d\<lparr>block := m\<rparr>, size_m = n\<rparr> e2))"

definition Vector_copy :: "'a Vector \<Rightarrow> env \<Rightarrow> ('a Vector, env) outcome" where
  "Vector_copy other e =
     (case RawMemory_ctor (size_m other) e of
        Undefined \<Rightarrow> Undefined
      | Thrown ex e1 \<Rightarrow> Thrown ex e1
      | Returned d e1 \<Rightarrow>
          (case uninitialized_copy_n (block (data_m other)) 0 (size_m other) (block d) 0 e1 of
             Undefined \<Rightarrow> Undefined
           | Thrown ex (_, e2) \<Rightarrow> Thrown ex e2
           | Returned _ (m, e2) \<Rightarrow> Returned \<lparr>data_m = d\<lparr>block := m\<rparr>, size_m = size_m other\<rparr> e2))"

text \<open>
  Move construction \<^verbatim>\<open>new (m + d) T(std::move(m[s]))\<close> between two cells of
  one block.
\<close>

definition move_construct :: "'a traits \<Rightarrow> 'a slot list \<Rightarrow> nat \<Rightarrow> nat \<Rightarrow> env
    \<Rightarrow> (unit, 'a slot list \<times> env) outcome" where
  "move_construct tr m d s e =
     (case obj_at m s of
        None \<Rightarrow> Undefined
      | Some y \<Rightarrow>
          (case construct_at move_ctor_exn (\<not> nothrow_move_constructible tr) m d y e of
             Undefined \<Rightarrow> Undefined
           | Thrown ex s' \<Rightarrow> Thrown ex s'
           | Returned _ (m', e') \<Rightarrow> Returned () (m'[s := Obj (moved_from tr y)], e')))"

text \<open>
  \<^verbatim>\<open>Emplace(pos, args...)\<close>. \<open>x\<close> is the value that
  \<^verbatim>\<open>T(std::forward<Args>(args)...)\<close> constructs. The three branches of the
  source are three definitions: the new element at the end of a block with room, the
  new element inside a block with room, and the reallocation. Each returns the vector
  before \<^verbatim>\<open>++size_\<close>. In the second branch the temporary \<^verbatim>\<open>tmp_obj\<close>
  lives outside the vector; the model keeps its value only. \<^verbatim>\<open>size_ - 1\<close> and
  \<^verbatim>\<open>size_ - offset\<close> are \<^verbatim>\<open>size_t\<close> subtractions: where they would
  wrap, the access that follows is out of range.
\<close>

definition Emplace_at_end :: "nat \<Rightarrow> 'a \<Rightarrow> 'a Vector \<times> env \<Rightarrow> (unit, 'a Vector \<times> env) outcome" where
  "Emplace_at_end offset x s =
     (case s of (v, e) \<Rightarrow>
      (case construct_at args_ctor_exn True (block (data_m v)) offset x e of
         Undefined \<Rightarrow> Undefined
       | Thrown ex (_, e1) \<Rightarrow> Thrown ex (v, e1)
       | Returned _ (m1, e1) \<Rightarrow> Returned () (set_block v m1, e1)))"

definition Emplace_inside :: "'a traits \<Rightarrow> nat \<Rightarrow> 'a \<Rightarrow> 'a Vector \<times> env \<Rightarrow> (unit, 'a Vector \<times> env) outcome" where
  "Emplace_inside tr offset x s =
     (case s of (v, e) \<Rightarrow>
      (case raises e of
         (True, e1) \<Rightarrow> Thrown args_ctor_exn (v, e1)
       | (False, e1) \<Rightarrow>
          (if size_m v = 0 then Undefined
           else
             (case move_construct tr (block (data_m v)) (size_m v) (size_m v - 1) e1 of
                Undefined \<Rightarrow> Undefined
              | Thrown ex (_, e2) \<Rightarrow> Thrown ex (v, e2)
              | Returned _ (m2, e2) \<Rightarrow>
                 (case move_backward tr m2 offset (size_m v - 1) (size_m v) e2 of
                    Undefined \<Rightarrow> Undefined
                  | Thrown ex (m3, e3) \<Rightarrow> Thrown ex (set_block v m3, e3)
                  | Returned _ (m3, e3) \<Rightarrow>
                     (case assign_at move_assign_exn (\<not> nothrow_move_assignable tr) m3 offset x e3 of
                        Undefined \<Rightarrow> Undefined
                      | Thrown ex (m4, e4) \<Rightarrow> Thrown ex (set_block v m4, e4)
                      | Returned _ (m4, e4) \<Rightarrow> Returned () (set_block v m4, e4)))))))"

definition Emplace_realloc :: "'a traits \<Rightarrow> nat \<Rightarrow> 'a \<Rightarrow> 'a Vector \<times> env \<Rightarrow> (unit, 'a Vector \<times> env) outcome" where
  "Emplace_realloc tr offset x s =
     (case s of (v, e) \<Rightarrow>
      (let new_capacity = (if size_m v = 0 then 1 else size_m v * 2) in
       (case RawMemory_ctor new_capacity e of
          Undefined \<Rightarrow> Undefined
        | Thrown ex e1 \<Rightarrow> Thrown ex (v, e1)
        | Returned new_data e1 \<Rightarrow>
           (case construct_at args_ctor_exn True (block new_data) offset x e1 of
              Undefined \<Rightarrow> Undefined
            | Thrown ex (_, e2) \<Rightarrow> Thrown ex (v, e2)
            | Returned _ (n2, e2) \<Rightarrow>
               (case relocate_n tr (block (data_m v)) 0 offset n2 0 e2 of
                  Undefined \<Rightarrow> Undefined
                | Thrown ex ((o3, _), e3) \<Rightarrow> Thrown ex (set_block v o3, e3)
                | Returned _ ((o3, n3), e3) \<Rightarrow>
                   (if size_m v < offset then Undefined
                    else
                      (case relocate_n tr o3 offset (size_m v - offset) n3 (offset + 1) e3 of
                         Undefined \<Rightarrow> Undefined
                       | Thrown ex ((o4, _), e4) \<Rightarrow> Thrown ex (set_block v o4, e4)
                       | Returned _ ((o4, n4), e4) \<Rightarrow>
                          (case destroy_n o4 0 (size_m v) of
                             None \<Rightarrow> Undefined
                           | Some o5 \<Rightarrow>
                              (case RawMemory_Swap ((data_m v)\<lparr>block := o5\<rparr>,
                                      new_data\<lparr>block := n4\<rparr>) of
                                 (d, _) \<Rightarrow> Returned () (v\<lparr>data_m := d\<rparr>, e4))))))))))"

definition Emplace :: "'a traits \<Rightarrow> pointer \<Rightarrow> 'a \<Rightarrow> 'a Vector \<times> env \<Rightarrow> (pointer, 'a Vector \<times> env) outcome" where
  "Emplace tr pos x s =
     (case s of (v, e) \<Rightarrow>
      (case ptr_diff pos (begin_it v) of
         None \<Rightarrow> Undefined
       | Some offset \<Rightarrow>
          (case (if size_m v < Capacity v
                 then (if pos = end_it v then Emplace_at_end offset x (v, e)
                       else Emplace_inside tr offset x (v, e))
                 else Emplace_realloc tr offset x (v, e)) of
             Undefined \<Rightarrow> Undefined
           | Thrown ex s' \<Rightarrow> Thrown ex s'
           | Returned _ (v', e') \<Rightarrow>
              (let v'' = v'\<lparr>size_m := size_m v' + 1\<rparr>
               in Returned (fst (begin_it v''), snd (begin_it v'') + offset) (v'', e')))))"

text \<open>
  Both overloads of \<^verbatim>\<open>Insert\<close> call \<^verbatim>\<open>Emplace\<close>, with the value or with
  \<^verbatim>\<open>std::move\<close> of it: the constructor of the new element is then the copy or
  the move constructor of \<open>T\<close>.
\<close>

definition Insert :: "'a traits \<Rightarrow> pointer \<Rightarrow> 'a \<Rightarrow> 'a Vector \<times> env \<Rightarrow> (pointer, 'a Vector \<times> env) outcome" where
  "Insert tr pos val s = Emplace tr pos val s"

text \<open>
  \<^verbatim>\<open>EmplaceBack\<close> returns a reference: the address of the new element.
\<close>

definition EmplaceBack :: "'a traits \<Rightarrow> 'a \<Rightarrow> 'a Vector \<times> env \<Rightarrow> (pointer, 'a Vector \<times> env) outcome" where
  "EmplaceBack tr x s =
     (case s of (v, e) \<Rightarrow> Emplace tr (RawMemory_plus (data_m v) (size_m v)) x (v, e))"

definition Erase :: "'a traits \<Rightarrow> pointer \<Rightarrow> 'a Vector \<times> env \<Rightarrow> (pointer, 'a Vector \<times> env) outcome" where
  "Erase tr pos s =
     (case s of (v, e) \<Rightarrow>
      (case ptr_diff pos (begin_it v) of
         None \<Rightarrow> Undefined
       | Some offset \<Rightarrow>
          (case std_move tr (block (data_m v)) (offset + 1) (size_m v) offset e of
             Undefined \<Rightarrow> Undefined
           | Thrown ex (m1, e1) \<Rightarrow> Thrown ex (set_block v m1, e1)
           | Returned _ (m1, e1) \<Rightarrow>
              (if size_m v = 0 then Undefined
               else
                 (case destroy_at m1 (size_m v - 1) of
                    None \<Rightarrow> Undefined
                  | Some m2 \<Rightarrow>
                     (let v' = (set_block v m2)\<lparr>size_m := size_m v - 1\<rparr>
                      in Returned (fst (begin_it v'), snd (begin_it v') + offset) (v', e1)))))))"

text \<open>
  \<^verbatim>\<open>Swap\<close>, the move constructor and the two assignments take a second
  vector by reference. \<open>swap_objects\<close> is the exchange of the members of two
  different objects; the functions at the end of this section work on a store of vector
  objects, where a reference is an index, and make the comparisons of addresses
  (\<^verbatim>\<open>this == &rhs\<close>, \<^verbatim>\<open>&data_ == &other.data_\<close>).
\<close>

definition swap_objects :: "'a Vector \<times> 'a Vector \<Rightarrow> 'a Vector \<times> 'a Vector" where
  "swap_objects p =
     (case p of (this, other) \<Rightarrow>
        (case RawMemory_Swap (data_m this, data_m other) of
           (d, od) \<Rightarrow> (\<lparr>data_m = d, size_m = size_m other\<rparr>, \<lparr>data_m = od, size_m = size_m this\<rparr>)))"

text \<open>
  \<^verbatim>\<open>Vector(Vector&& other) noexcept\<close>: the members of the new object are
  default-initialised, then exchanged with those of \<open>other\<close>. It returns the new
  object and \<open>other\<close>.
\<close>

definition Vector_move :: "'a Vector \<Rightarrow> 'a Vector \<times> 'a Vector" where
  "Vector_move other = swap_objects (Vector_default, other)"

definition Reserve :: "'a traits \<Rightarrow> nat \<Rightarrow> 'a Vector \<times> env \<Rightarrow> (unit, 'a Vector \<times> env) outcome" where
  "Reserve tr new_capacity s =
     (case s of (v, e) \<Rightarrow>
      (if new_capacity \<le> capacity_m (data_m v) then Returned () (v, e)
       else
         (case RawMemory_ctor new_capacity e of
            Undefined \<Rightarrow> Undefined
          | Thrown ex e1 \<Rightarrow> Thrown ex (v, e1)
          | Returned new_data e1 \<Rightarrow>
             (case relocate_n tr (block (data_m v)) 0 (size_m v) (block new_data) 0 e1 of
                Undefined \<Rightarrow> Undefined
              | Thrown ex ((o2, _), e2) \<Rightarrow> Thrown ex (set_block v o2, e2)
              | Returned _ ((o2, n2), e2) \<Rightarrow>
                 (case destroy_n o2 0 (size_m v) of
                    None \<Rightarrow> Undefined
                  | Some o3 \<Rightarrow>
                     (case RawMemory_Swap ((data_m v)\<lparr>block := o3\<rparr>, new_data\<lparr>block := n2\<rparr>) of
                        (d, _) \<Rightarrow> Returned () (v\<lparr>data_m := d\<rparr>, e2)))))))"

definition Resize :: "'a traits \<Rightarrow> nat \<Rightarrow> 'a Vector \<times> env \<Rightarrow> (unit, 'a Vector \<times> env) outcome" where
  "Resize tr new_size s =
     (case s of (v, e) \<Rightarrow>
      (case (if new_size < size_m v
             then (case destroy_n (block (data_m v)) new_size (size_m v - new_size) of
                     None \<Rightarrow> Undefined
                   | Some m1 \<Rightarrow> Returned () (set_block v m1, e))
             else if new_size > size_m v
             then (case Reserve tr new_size (v, e) of
                     Undefined \<Rightarrow> Undefined
                   | Thrown ex s1 \<Rightarrow> Thrown ex s1
                   | Returned _ (v1, e1) \<Rightarrow>
                      (case uninitialized_value_construct_n tr (block (data_m v1)) (size_m v1)
                              (new_size - size_m v1) e1 of
                         Undefined \<Rightarrow> Undefined
                       | Thrown ex (m2, e2) \<Rightarrow> Thrown ex (set_block v1 m2, e2)
                       | Returned _ (m2, e2) \<Rightarrow> Returned () (set_block v1 m2, e2)))
             else Returned () (v, e)) of
         Undefined \<Rightarrow> Undefined
       | Thrown ex s' \<Rightarrow> Thrown ex s'
       | Returned _ (v', e') \<Rightarrow> Returned () (v'\<lparr>size_m := new_size\<rparr>, e')))"

text \<open>
  \<^verbatim>\<open>PushBack(const T& value)\<close> and \<^verbatim>\<open>PushBack(T&& value)\<close>; \<open>val\<close> is
  the value of the argument, an object outside the vector. The two bodies are the same
  text but for the constructor of the new element, the copy constructor in the first
  and the move constructor in the second: \<open>PushBack_with\<close> is that body, \<open>ex_new\<close>
  and \<open>can_throw\<close> the exception of the constructor and whether it may throw.
\<close>

definition PushBack_with :: "exn \<Rightarrow> bool \<Rightarrow> 'a traits \<Rightarrow> 'a \<Rightarrow> 'a Vector \<times> env \<Rightarrow> (unit, 'a Vector \<times> env) outcome" where
  "PushBack_with ex_new can_throw tr val s =
     (case s of (v, e) \<Rightarrow>
      (case (if size_m v = Capacity v
             then
               (let new_capacity = (if size_m v = 0 then 1 else size_m v * 2) in
                (case RawMemory_ctor new_capacity e of
                   Undefined \<Rightarrow> Undefined
                 | Thrown ex e1 \<Rightarrow> Thrown ex (v, e1)
                 | Returned new_data e1 \<Rightarrow>
                    (case relocate_n tr (block (data_m v)) 0 (size_m v) (block new_data) 0 e1 of
                       Undefined \<Rightarrow> Undefined
                     | Thrown ex ((o2, _), e2) \<Rightarrow> Thrown ex (set_block v o2, e2)
                     | Returned _ ((o2, n2), e2) \<Rightarrow>
                        (case construct_at ex_new can_throw n2 (size_m v) val e2 of
                           Undefined \<Rightarrow> Undefined
                         | Thrown ex (_, e3) \<Rightarrow> Thrown ex (set_block v o2, e3)
                         | Returned _ (n3, e3) \<Rightarrow>
                            (case destroy_n o2 0 (size_m v) of
                               None \<Rightarrow> Undefined
                             | Some o4 \<Rightarrow>
                                (case RawMemory_Swap ((data_m v)\<lparr>block := o4\<rparr>,
                                        new_data\<lparr>block := n3\<rparr>) of
                                   (d, _) \<Rightarrow> Returned () (v\<lparr>data_m := d\<rparr>, e3)))))))
             else
               (case construct_at ex_new can_throw (block (data_m v)) (size_m v) val e of
                  Undefined \<Rightarrow> Undefined
                | Thrown ex (_, e1) \<Rightarrow> Thrown ex (v, e1)
                | Returned _ (m1, e1) \<Rightarrow> Returned () (set_block v m1, e1))) of
         Undefined \<Rightarrow> Undefined
       | Thrown ex s' \<Rightarrow> Thrown ex s'
       | Returned _ (v', e') \<Rightarrow> Returned () (v'\<lparr>size_m := size_m v' + 1\<rparr>, e')))"

definition PushBack :: "'a traits \<Rightarrow> 'a \<Rightarrow> 'a Vector \<times> env \<Rightarrow> (unit, 'a Vector \<times> env) outcome" where
  "PushBack tr val s = PushBack_with copy_ctor_exn True tr val s"

definition PushBack_move :: "'a traits \<Rightarrow> 'a \<Rightarrow> 'a Vector \<times> env \<Rightarrow> (unit, 'a Vector \<times> env) outcome" where
  "PushBack_move tr val s =
     PushBack_with move_ctor_exn (\<not> nothrow_move_constructible tr) tr val s"

text \<open>
  \<^verbatim>\<open>PopBack\<close>: the assertion \<^verbatim>\<open>size_ > 0\<close> is compiled out of a release
  build, where \<^verbatim>\<open>--size_\<close> on an empty vector wraps and the destruction is out
  of range.
\<close>

definition PopBack :: "'a Vector \<Rightarrow> 'a Vector option" where
  "PopBack v =
     (if size_m v = 0 then None
      else (case destroy_at (block (data_m v)) (size_m v - 1) of
              None \<Rightarrow> None
            | Some m \<Rightarrow> Some ((set_block v m)\<lparr>size_m := size_m v - 1\<rparr>)))"

text \<open>
  \<^verbatim>\<open>operator=(const Vector& rhs)\<close> after the test \<^verbatim>\<open>this == &rhs\<close>, for
  a \<open>rhs\<close> that is another object. In the first branch the destructor of
  \<^verbatim>\<open>rhs_copy\<close>, which holds the old elements after the swap, runs at the end of
  the block.
\<close>

definition assign_copy_from :: "'a Vector \<Rightarrow> 'a Vector \<times> env \<Rightarrow> (unit, 'a Vector \<times> env) outcome" where
  "assign_copy_from rhs s =
     (case s of (v, e) \<Rightarrow>
      (if size_m rhs > capacity_m (data_m v)
       then
         (case Vector_copy rhs e of
            Undefined \<Rightarrow> Undefined
          | Thrown ex e1 \<Rightarrow> Thrown ex (v, e1)
          | Returned rhs_copy e1 \<Rightarrow>
             (case swap_objects (v, rhs_copy) of
                (v', rhs_copy') \<Rightarrow>
                  (case Vector_dtor rhs_copy' of
                     None \<Rightarrow> Undefined
                   | Some _ \<Rightarrow> Returned () (v', e1))))
       else
         (case (if size_m v > size_m rhs
                then destroy_n (block (data_m v)) (size_m rhs) (size_m v - size_m rhs)
                else Some (block (data_m v))) of
            None \<Rightarrow> Undefined
          | Some m1 \<Rightarrow>
             (if size_m rhs = 0 then Returned () ((set_block v m1)\<lparr>size_m := size_m rhs\<rparr>, e)
              else
                (case (if size_m v \<ge> size_m rhs
                       then std_copy (block (data_m rhs)) 0 (size_m rhs) m1 0 e
                       else
                         (case std_copy (block (data_m rhs)) 0 (size_m v) m1 0 e of
                            Undefined \<Rightarrow> Undefined
                          | Thrown ex s2 \<Rightarrow> Thrown ex s2
                          | Returned _ (m2, e2) \<Rightarrow>
                              uninitialized_copy (block (data_m rhs)) (size_m v) (size_m rhs)
                                m2 (size_m v) e2)) of
                   Undefined \<Rightarrow> Undefined
                 | Thrown ex (m3, e3) \<Rightarrow> Thrown ex (set_block v m3, e3)
                 | Returned _ (m3, e3) \<Rightarrow>
                     Returned () ((set_block v m3)\<lparr>size_m := size_m rhs\<rparr>, e3))))))"

text \<open>
  The store of vector objects: a reference to a vector is an index into the list.
  A reference to no object is undefined behaviour.
\<close>

type_synonym 'a store = "'a Vector list"

definition Swap :: "nat \<Rightarrow> nat \<Rightarrow> 'a store \<Rightarrow> 'a store option" where
  "Swap this other st =
     (if \<not> (this < length st \<and> other < length st) then None
      else if this = other then Some st
      else (case swap_objects (st ! this, st ! other) of
              (a, b) \<Rightarrow> Some (st[this := a, other := b])))"

definition assign_copy :: "nat \<Rightarrow> nat \<Rightarrow> 'a store \<times> env \<Rightarrow> (unit, 'a store \<times> env) outcome" where
  "assign_copy this rhs s =
     (case s of (st, e) \<Rightarrow>
      (if \<not> (this < length st \<and> rhs < length st) then Undefined
       else if this = rhs then Returned () (st, e)
       else (case assign_copy_from (st ! rhs) (st ! this, e) of
               Undefined \<Rightarrow> Undefined
             | Thrown ex (v', e') \<Rightarrow> Thrown ex (st[this := v'], e')
             | Returned _ (v', e') \<Rightarrow> Returned () (st[this := v'], e'))))"

definition assign_move :: "nat \<Rightarrow> nat \<Rightarrow> 'a store \<Rightarrow> 'a store option" where
  "assign_move this rhs st =
     (if \<not> (this < length st \<and> rhs < length st) then None
      else if this \<noteq> rhs then Swap this rhs st
      else Some st)"

text \<open>
  The class invariant of the specification: \<open>size \<le> capacity\<close>, the block has
  \<open>capacity\<close> cells and is null exactly when the capacity is zero, the cells of
  \<open>[0, size)\<close> hold constructed objects and those of \<open>[size, capacity)\<close> are raw.
\<close>

definition is_obj :: "'a slot \<Rightarrow> bool" where
  "is_obj c = (case c of Raw \<Rightarrow> False | Obj _ \<Rightarrow> True)"

definition invariant :: "'a Vector \<Rightarrow> bool" where
  "invariant v \<longleftrightarrow>
     size_m v \<le> capacity_m (data_m v) \<and>
     length (block (data_m v)) = capacity_m (data_m v) \<and>
     ((buffer_m (data_m v) = None) = (capacity_m (data_m v) = 0)) \<and>
     list_all is_obj (take (size_m v) (block (data_m v))) \<and>
     list_all (\<lambda>c. c = Raw) (drop (size_m v) (block (data_m v)))"

section \<open>Sequences of public operations\<close>

text \<open>
  The public operations on the vectors of a store. An object is named by its index; a
  constructor appends the new object; a position is \<open>begin() + p\<close>, given by \<open>p\<close>.
\<close>

datatype 'a operation =
    New_default | New_sized nat | New_copy nat | New_move nat
  | Op_assign_copy nat nat | Op_assign_move nat nat
  | Op_Reserve nat nat | Op_Resize nat nat
  | Op_PushBack nat 'a | Op_PushBack_move nat 'a | Op_PopBack nat
  | Op_Emplace nat nat 'a | Op_Insert nat nat 'a | Op_EmplaceBack nat 'a
  | Op_Erase nat nat | Op_Swap nat nat

definition on_object :: "nat \<Rightarrow> ('a Vector \<times> env \<Rightarrow> ('r, 'a Vector \<times> env) outcome)
    \<Rightarrow> 'a store \<times> env \<Rightarrow> (unit, 'a store \<times> env) outcome" where
  "on_object i f s =
     (case s of (st, e) \<Rightarrow>
        if i < length st
        then (case f (st ! i, e) of
                Undefined \<Rightarrow> Undefined
              | Thrown ex (v', e') \<Rightarrow> Thrown ex (st[i := v'], e')
              | Returned _ (v', e') \<Rightarrow> Returned () (st[i := v'], e'))
        else Undefined)"

fun perform :: "'a traits \<Rightarrow> 'a operation \<Rightarrow> 'a store \<times> env \<Rightarrow> (unit, 'a store \<times> env) outcome" where
  "perform tr New_default (st, e) = Returned () (st @ [Vector_default], e)"
| "perform tr (New_sized n) (st, e) =
     (case Vector_sized tr n e of
        Undefined \<Rightarrow> Undefined
      | Thrown ex e' \<Rightarrow> Thrown ex (st, e')
      | Returned v e' \<Rightarrow> Returned () (st @ [v], e'))"
| "perform tr (New_copy i) (st, e) =
     (if i < length st
      then (case Vector_copy (st ! i) e of
              Undefined \<Rightarrow> Undefined
            | Thrown ex e' \<Rightarrow> Thrown ex (st, e')
            | Returned v e' \<Rightarrow> Returned () (st @ [v], e'))
      else Undefined)"
| "perform tr (New_move i) (st, e) =
     (if i < length st
      then (case Vector_move (st ! i) of (v, other) \<Rightarrow> Returned () (st[i := other] @ [v], e))
      else Undefined)"
| "perform tr (Op_assign_copy a b) (st, e) = assign_copy a b (st, e)"
| "perform tr (Op_assign_move a b) (st, e) =
     (case assign_move a b st of None \<Rightarrow> Undefined | Some st' \<Rightarrow> Returned () (st', e))"
| "perform tr (Op_Reserve i n) (st, e) = on_object i (Reserve tr n) (st, e)"
| "perform tr (Op_Resize i n) (st, e) = on_object i (Resize tr n) (st, e)"
| "perform tr (Op_PushBack i x) (st, e) = on_object i (PushBack tr x) (st, e)"
| "perform tr (Op_PushBack_move i x) (st, e) = on_object i (PushBack_move tr x) (st, e)"
| "perform tr (Op_PopBack i) (st, e) =
     (if i < length st
      then (case PopBack (st ! i) of None \<Rightarrow> Undefined | Some v' \<Rightarrow> Returned () (st[i := v'], e))
      else Undefined)"
| "perform tr (Op_Emplace i p x) (st, e) =
     on_object i (\<lambda>s. Emplace tr (RawMemory_plus (data_m (fst s)) p) x s) (st, e)"
| "perform tr (Op_Insert i p x) (st, e) =
     on_object i (\<lambda>s. Insert tr (RawMemory_plus (data_m (fst s)) p) x s) (st, e)"
| "perform tr (Op_EmplaceBack i x) (st, e) = on_object i (EmplaceBack tr x) (st, e)"
| "perform tr (Op_Erase i p) (st, e) =
     on_object i (\<lambda>s. Erase tr (RawMemory_plus (data_m (fst s)) p) s) (st, e)"
| "perform tr (Op_Swap a b) (st, e) =
     (case Swap a b st of None \<Rightarrow> Undefined | Some st' \<Rightarrow> Returned () (st', e))"

text \<open>
  A sequence of operations from a state, as long as every operation returns.
\<close>

fun perform_all :: "'a traits \<Rightarrow> 'a operation list \<Rightarrow> 'a store \<times> env \<Rightarrow> ('a store \<times> env) option" where
  "perform_all tr [] s = Some s"
| "perform_all tr (op # ops) s =
     (case perform tr op s of Returned _ s' \<Rightarrow> perform_all tr ops s' | _ \<Rightarrow> None)"

section \<open>Element types and vectors of the examples\<close>

text \<open>
  \<open>int_traits\<close> is \<^verbatim>\<open>int\<close>. \<open>string_traits\<close> is an element type like
  \<^verbatim>\<open>std::string\<close>: its move constructor and move assignment are
  \<^verbatim>\<open>noexcept\<close> and leave the source empty, its copy operations may throw.
\<close>

definition int_traits :: "int traits" where
  "int_traits = \<lparr>nothrow_move_constructible = True, copy_constructible = True,
     nothrow_move_assignable = True, moved_from = (\<lambda>x. x), value_init = 0\<rparr>"

definition string_traits :: "string traits" where
  "string_traits = \<lparr>nothrow_move_constructible = True, copy_constructible = True,
     nothrow_move_assignable = True, moved_from = (\<lambda>x. []), value_init = []\<rparr>"

definition three_ints :: "int Vector" where
  "three_ints = \<lparr>data_m = \<lparr>buffer_m = Some 1, capacity_m = 4,
     block = [Obj 1, Obj 42, Obj 2, Raw]\<rparr>, size_m = 3\<rparr>"

definition two_ints :: "int Vector" where
  "two_ints = \<lparr>data_m = \<lparr>buffer_m = Some 1, capacity_m = 2,
     block = [Obj 1, Obj 2]\<rparr>, size_m = 2\<rparr>"

definition one_string :: "string Vector" where
  "one_string = \<lparr>data_m = \<lparr>buffer_m = Some 1, capacity_m = 1,
     block = [Obj ''ab'']\<rparr>, size_m = 1\<rparr>"

definition two_empty_strings :: "string Vector" where
  "two_empty_strings = \<lparr>data_m = \<lparr>buffer_m = Some 1, capacity_m = 2,
     block = [Obj [], Obj []]\<rparr>, size_m = 2\<rparr>"

definition one_empty_string :: "string Vector" where
  "one_empty_string = \<lparr>data_m = \<lparr>buffer_m = Some 2, capacity_m = 1,
     block = [Obj []]\<rparr>, size_m = 1\<rparr>"

text \<open>
  \<open>throwing_assign_traits\<close> is an element type of integers whose move constructor is
  \<^verbatim>\<open>noexcept\<close> and whose assignments may throw.
\<close>

definition throwing_assign_traits :: "int traits" where
  "throwing_assign_traits = \<lparr>nothrow_move_constructible = True, copy_constructible = True,
     nothrow_move_assignable = False, moved_from = (\<lambda>x. x), value_init = 0\<rparr>"

text \<open>A schedule on which no step throws.\<close>

definition nothing_throws :: "env \<Rightarrow> bool" where
  "nothing_throws e \<longleftrightarrow> True \<notin> set (sched e)"

section \<open>The primitive steps\<close>

lemma raises_quiet:
  "nothing_throws e \<Longrightarrow> \<exists>e'. raises e = (False, e') \<and> nothing_throws e'"
  by (cases "sched e") (auto simp: raises_def nothing_throws_def)

lemma obj_at_Some_iff: "obj_at m i = Some x \<longleftrightarrow> i < length m \<and> m ! i = Obj x"
  by (auto simp: obj_at_def split: slot.splits)

lemma obj_at_None_iff: "obj_at m i = None \<longleftrightarrow> \<not> (i < length m \<and> is_obj (m ! i))"
  by (auto simp: obj_at_def is_obj_def split: slot.splits)

lemma is_obj_simps [simp]: "is_obj (Obj x)" "\<not> is_obj Raw"
  by (simp_all add: is_obj_def)

lemma construct_at_Returned:
  "construct_at ex b m i x e = Returned u (m', e') \<Longrightarrow> i < length m \<and> m' = m[i := Obj x]"
  by (auto simp: construct_at_def split: if_splits prod.splits bool.splits)

lemma construct_at_quiet:
  "i < length m \<Longrightarrow> nothing_throws e \<Longrightarrow>
   \<exists>e'. construct_at ex b m i x e = Returned () (m[i := Obj x], e') \<and> nothing_throws e'"
  using raises_quiet [of e] by (auto simp: construct_at_def)

lemma construct_at_Thrown:
  "construct_at ex b m i x e = Thrown ex' (m', e') \<Longrightarrow> ex' = ex \<and> m' = m \<and> b \<and> raises e = (True, e')"
  by (auto simp: construct_at_def split: if_splits prod.splits bool.splits)

lemma assign_at_Returned:
  "assign_at ex b m i x e = Returned u (m', e') \<Longrightarrow> i < length m \<and> is_obj (m ! i) \<and> m' = m[i := Obj x]"
  by (auto simp: assign_at_def obj_at_Some_iff split: option.splits if_splits prod.splits bool.splits)

lemma assign_at_quiet:
  "i < length m \<Longrightarrow> is_obj (m ! i) \<Longrightarrow> nothing_throws e \<Longrightarrow>
   \<exists>e'. assign_at ex b m i x e = Returned () (m[i := Obj x], e') \<and> nothing_throws e'"
  using raises_quiet [of e]
  by (cases "obj_at m i") (auto simp: assign_at_def obj_at_None_iff)

lemma destroy_at_Some:
  "destroy_at m i = Some m' \<longleftrightarrow> i < length m \<and> is_obj (m ! i) \<and> m' = m[i := Raw]"
  by (auto simp: destroy_at_def obj_at_def is_obj_def split: slot.splits)

lemma destroy_n_Some:
  "destroy_n m first n = Some m' \<Longrightarrow>
     length m' = length m \<and> (n = 0 \<or> first + n \<le> length m) \<and>
     (\<forall>i<length m. m' ! i = (if first \<le> i \<and> i < first + n then Raw else m ! i))"
proof (induction n arbitrary: m first)
  case 0
  then show ?case by auto
next
  case (Suc n)
  from Suc.prems obtain m1 where d: "destroy_at m first = Some m1"
    and r: "destroy_n m1 (Suc first) n = Some m'"
    by (auto split: option.splits)
  from d have m1: "first < length m" "m1 = m[first := Raw]"
    by (simp_all add: destroy_at_Some)
  from Suc.IH [OF r] m1 show ?case
    by (auto simp: nth_list_update)
qed

lemma destroy_n_ok:
  "first + n \<le> length m \<Longrightarrow> (\<forall>i. first \<le> i \<and> i < first + n \<longrightarrow> is_obj (m ! i)) \<Longrightarrow>
   \<exists>m'. destroy_n m first n = Some m'"
proof (induction n arbitrary: m first)
  case 0
  then show ?case by simp
next
  case (Suc n)
  have d: "destroy_at m first = Some (m[first := Raw])"
    using Suc.prems by (simp add: destroy_at_Some)
  have "\<exists>m'. destroy_n (m[first := Raw]) (Suc first) n = Some m'"
    using Suc.prems by (intro Suc.IH) (auto simp: nth_list_update)
  with d show ?case by simp
qed

section \<open>The loops between two blocks\<close>

lemma uninit_copy_loop_Returned:
  "uninit_copy_loop src first count dst d_first current e = Returned u (dst', e') \<Longrightarrow>
     length dst' = length dst \<and> (count = 0 \<or> (current + count \<le> length dst \<and> first + count \<le> length src)) \<and>
     (\<forall>i<length dst. dst' ! i =
        (if current \<le> i \<and> i < current + count then src ! (first + (i - current)) else dst ! i)) \<and>
     (\<forall>k<count. is_obj (src ! (first + k)))"
proof (induction count arbitrary: first dst current e)
  case 0
  then show ?case by auto
next
  case (Suc count)
  from Suc.prems obtain x dst1 e1 u1 where x: "obj_at src first = Some x"
    and c: "construct_at copy_ctor_exn True dst current x e = Returned u1 (dst1, e1)"
    and r: "uninit_copy_loop src (Suc first) count dst1 d_first (Suc current) e1 = Returned u (dst', e')"
    by (auto split: option.splits outcome.splits prod.splits)
  from x have sx: "first < length src" "src ! first = Obj x"
    by (simp_all add: obj_at_Some_iff)
  from construct_at_Returned [OF c] have d1: "current < length dst" "dst1 = dst[current := Obj x]"
    by simp_all
  note ih = Suc.IH [OF r]
  have len: "length dst' = length dst" using ih d1 by simp
  have bounds: "current + Suc count \<le> length dst \<and> first + Suc count \<le> length src"
    using ih d1 sx by auto
  have cells: "\<forall>i<length dst. dst' ! i =
        (if current \<le> i \<and> i < current + Suc count then src ! (first + (i - current)) else dst ! i)"
  proof (intro allI impI)
    fix i assume i: "i < length dst"
    show "dst' ! i = (if current \<le> i \<and> i < current + Suc count then src ! (first + (i - current)) else dst ! i)"
    proof (cases "i = current")
      case True
      then show ?thesis using ih d1 sx i by simp
    next
      case False
      then have "dst' ! i = (if Suc current \<le> i \<and> i < Suc current + count then src ! (Suc first + (i - Suc current)) else dst ! i)"
        using ih d1 i by simp
      moreover have "Suc current \<le> i \<Longrightarrow> Suc first + (i - Suc current) = first + (i - current)"
        by arith
      ultimately show ?thesis using False by auto
    qed
  qed
  have objs: "\<forall>k<Suc count. is_obj (src ! (first + k))"
  proof (intro allI impI)
    fix k assume "k < Suc count"
    then show "is_obj (src ! (first + k))"
      using ih sx by (cases k) auto
  qed
  from len bounds cells objs show ?case by simp
qed

lemma uninit_copy_loop_quiet:
  "first + count \<le> length src \<Longrightarrow> (\<forall>k<count. is_obj (src ! (first + k))) \<Longrightarrow>
   current + count \<le> length dst \<Longrightarrow> nothing_throws e \<Longrightarrow>
   \<exists>dst' e'. uninit_copy_loop src first count dst d_first current e = Returned () (dst', e') \<and> nothing_throws e'"
proof (induction count arbitrary: first dst current e)
  case 0
  then show ?case by simp
next
  case (Suc count)
  from Suc.prems have "first < length src" "is_obj (src ! first)" by auto
  then obtain x where x: "obj_at src first = Some x"
    by (cases "obj_at src first") (auto simp: obj_at_None_iff)
  from Suc.prems have "current < length dst" by simp
  from construct_at_quiet [OF this Suc.prems(4), of copy_ctor_exn True x]
  obtain e1 where c: "construct_at copy_ctor_exn True dst current x e = Returned () (dst[current := Obj x], e1)"
    and q: "nothing_throws e1" by blast
  have "\<exists>dst' e'. uninit_copy_loop src (Suc first) count (dst[current := Obj x]) d_first (Suc current) e1
      = Returned () (dst', e') \<and> nothing_throws e'"
    using Suc.prems q by (intro Suc.IH) auto
  with x c show ?case by simp
qed

lemma uninit_copy_loop_exn:
  "uninit_copy_loop src first count dst d_first current e = Thrown ex s \<Longrightarrow> ex = copy_ctor_exn"
proof (induction count arbitrary: first dst current e)
  case 0
  then show ?case by simp
next
  case (Suc count)
  then show ?case
    by (auto split: option.splits outcome.splits prod.splits dest: construct_at_Thrown)
qed

lemma uninit_move_loop_Returned:
  "uninit_move_loop tr src first count dst d_first current e = Returned u ((src', dst'), e') \<Longrightarrow>
     length dst' = length dst \<and> length src' = length src \<and>
     (count = 0 \<or> (current + count \<le> length dst \<and> first + count \<le> length src)) \<and>
     (\<forall>i<length dst. dst' ! i =
        (if current \<le> i \<and> i < current + count then src ! (first + (i - current)) else dst ! i)) \<and>
     (\<forall>k<count. is_obj (src ! (first + k))) \<and>
     (\<forall>i<length src. is_obj (src' ! i) = is_obj (src ! i)) \<and>
     (\<forall>i<length src. \<not> (first \<le> i \<and> i < first + count) \<longrightarrow> src' ! i = src ! i)"
proof (induction count arbitrary: first src dst current e)
  case 0
  then show ?case by auto
next
  case (Suc count)
  from Suc.prems obtain x dst1 e1 u1 where x: "obj_at src first = Some x"
    and c: "construct_at move_ctor_exn (\<not> nothrow_move_constructible tr) dst current x e = Returned u1 (dst1, e1)"
    and r: "uninit_move_loop tr (src[first := Obj (moved_from tr x)]) (Suc first) count dst1 d_first (Suc current) e1
       = Returned u ((src', dst'), e')"
    by (auto split: option.splits outcome.splits prod.splits)
  from x have sx: "first < length src" "src ! first = Obj x"
    by (simp_all add: obj_at_Some_iff)
  from construct_at_Returned [OF c] have d1: "current < length dst" "dst1 = dst[current := Obj x]"
    by simp_all
  note ih = Suc.IH [OF r]
  have len: "length dst' = length dst" "length src' = length src" using ih d1 by simp_all
  have bounds: "current + Suc count \<le> length dst \<and> first + Suc count \<le> length src"
    using ih d1 sx by auto
  have cells: "\<forall>i<length dst. dst' ! i =
        (if current \<le> i \<and> i < current + Suc count then src ! (first + (i - current)) else dst ! i)"
  proof (intro allI impI)
    fix i assume i: "i < length dst"
    show "dst' ! i = (if current \<le> i \<and> i < current + Suc count then src ! (first + (i - current)) else dst ! i)"
    proof (cases "i = current")
      case True
      then show ?thesis using ih d1 sx i by simp
    next
      case False
      then have "dst' ! i = (if Suc current \<le> i \<and> i < Suc current + count
          then (src[first := Obj (moved_from tr x)]) ! (Suc first + (i - Suc current)) else dst ! i)"
        using ih d1 i by simp
      moreover have "Suc current \<le> i \<Longrightarrow> Suc first + (i - Suc current) = first + (i - current)"
        by arith
      moreover have "Suc current \<le> i \<Longrightarrow> first + (i - current) \<noteq> first"
        by arith
      ultimately show ?thesis using False by auto
    qed
  qed
  have objs: "\<forall>k<Suc count. is_obj (src ! (first + k))"
  proof (intro allI impI)
    fix k assume "k < Suc count"
    then show "is_obj (src ! (first + k))"
      using ih sx by (cases k) (auto simp: nth_list_update)
  qed
  have keep: "\<forall>i<length src. is_obj (src' ! i) = is_obj (src ! i)"
    using ih sx by (auto simp: nth_list_update split: if_splits)
  have frame: "\<forall>i<length src. \<not> (first \<le> i \<and> i < first + Suc count) \<longrightarrow> src' ! i = src ! i"
    using ih sx by (auto simp: nth_list_update)
  from len bounds cells objs keep frame show ?case by simp
qed

lemma uninit_move_loop_quiet:
  "first + count \<le> length src \<Longrightarrow> (\<forall>k<count. is_obj (src ! (first + k))) \<Longrightarrow>
   current + count \<le> length dst \<Longrightarrow> nothing_throws e \<Longrightarrow>
   \<exists>src' dst' e'. uninit_move_loop tr src first count dst d_first current e = Returned () ((src', dst'), e')
      \<and> nothing_throws e'"
proof (induction count arbitrary: first src dst current e)
  case 0
  then show ?case by simp
next
  case (Suc count)
  from Suc.prems have "first < length src" "is_obj (src ! first)" by auto
  then obtain x where x: "obj_at src first = Some x"
    by (cases "obj_at src first") (auto simp: obj_at_None_iff)
  from Suc.prems have "current < length dst" by simp
  from construct_at_quiet [OF this Suc.prems(4), of move_ctor_exn "\<not> nothrow_move_constructible tr" x]
  obtain e1 where c: "construct_at move_ctor_exn (\<not> nothrow_move_constructible tr) dst current x e
      = Returned () (dst[current := Obj x], e1)"
    and q: "nothing_throws e1" by blast
  have "\<exists>src' dst' e'. uninit_move_loop tr (src[first := Obj (moved_from tr x)]) (Suc first) count
      (dst[current := Obj x]) d_first (Suc current) e1
      = Returned () ((src', dst'), e') \<and> nothing_throws e'"
    using Suc.prems q by (intro Suc.IH) (auto simp: nth_list_update)
  with x c show ?case by simp
qed

lemma uninit_move_loop_exn:
  "uninit_move_loop tr src first count dst d_first current e = Thrown ex s \<Longrightarrow> ex = move_ctor_exn"
proof (induction count arbitrary: first src dst current e)
  case 0
  then show ?case by simp
next
  case (Suc count)
  then show ?case
    by (auto split: option.splits outcome.splits prod.splits dest: construct_at_Thrown)
qed

lemma relocate_n_Returned:
  "relocate_n tr src first count dst d_first e = Returned u ((src', dst'), e') \<Longrightarrow>
     length dst' = length dst \<and> length src' = length src \<and>
     (count = 0 \<or> (d_first + count \<le> length dst \<and> first + count \<le> length src)) \<and>
     (\<forall>i<length dst. dst' ! i =
        (if d_first \<le> i \<and> i < d_first + count then src ! (first + (i - d_first)) else dst ! i)) \<and>
     (\<forall>k<count. is_obj (src ! (first + k))) \<and>
     (\<forall>i<length src. is_obj (src' ! i) = is_obj (src ! i)) \<and>
     (\<forall>i<length src. \<not> (first \<le> i \<and> i < first + count) \<longrightarrow> src' ! i = src ! i)"
proof (cases "nothrow_move_constructible tr \<or> \<not> copy_constructible tr")
  case True
  assume "relocate_n tr src first count dst d_first e = Returned u ((src', dst'), e')"
  with True have "uninit_move_loop tr src first count dst d_first d_first e = Returned u ((src', dst'), e')"
    by (simp add: relocate_n_def uninitialized_move_n_def)
  from uninit_move_loop_Returned [OF this] show ?thesis .
next
  case False
  assume "relocate_n tr src first count dst d_first e = Returned u ((src', dst'), e')"
  with False have "uninit_copy_loop src first count dst d_first d_first e = Returned () (dst', e')" "src' = src"
    by (auto simp: relocate_n_def uninitialized_copy_n_def split: outcome.splits prod.splits)
  from uninit_copy_loop_Returned [OF this(1)] this(2) show ?thesis by simp
qed

lemma relocate_n_quiet:
  assumes "first + count \<le> length src" "\<forall>k<count. is_obj (src ! (first + k))"
    "d_first + count \<le> length dst" "nothing_throws e"
  shows "\<exists>src' dst' e'. relocate_n tr src first count dst d_first e = Returned () ((src', dst'), e')
      \<and> nothing_throws e'"
proof (cases "nothrow_move_constructible tr \<or> \<not> copy_constructible tr")
  case True
  with uninit_move_loop_quiet [OF assms, of tr d_first] show ?thesis
    by (simp add: relocate_n_def uninitialized_move_n_def)
next
  case False
  with uninit_copy_loop_quiet [OF assms, of d_first] show ?thesis
    by (auto simp: relocate_n_def uninitialized_copy_n_def)
qed

lemma relocate_n_exn:
  "relocate_n tr src first count dst d_first e = Thrown ex s \<Longrightarrow> ex = copy_ctor_exn \<or> ex = move_ctor_exn"
  by (auto simp: relocate_n_def uninitialized_move_n_def uninitialized_copy_n_def
      split: if_splits outcome.splits prod.splits dest: uninit_move_loop_exn uninit_copy_loop_exn)

lemma RawMemory_ctor_Returned:
  "RawMemory_ctor n e = Returned d e' \<Longrightarrow>
     capacity_m d = n \<and> block d = replicate n Raw \<and> ((buffer_m d = None) = (n = 0)) \<and>
     (n \<noteq> 0 \<longrightarrow> buffer_m d = Some (next_addr e))"
  by (auto simp: RawMemory_ctor_def Allocate_def raises_def
      split: if_splits outcome.splits prod.splits bool.splits list.splits)

lemma RawMemory_ctor_quiet:
  "nothing_throws e \<Longrightarrow> \<exists>d e'. RawMemory_ctor n e = Returned d e' \<and> nothing_throws e'"
  using raises_quiet [of e]
  by (auto simp: RawMemory_ctor_def Allocate_def nothing_throws_def)

lemma RawMemory_ctor_Thrown:
  "RawMemory_ctor n e = Thrown ex e' \<Longrightarrow> ex = bad_alloc \<and> raises e = (True, e') \<and> n \<noteq> 0"
  by (auto simp: RawMemory_ctor_def Allocate_def
      split: if_splits outcome.splits prod.splits bool.splits)

lemma RawMemory_ctor_defined: "RawMemory_ctor n e \<noteq> Undefined"
  by (auto simp: RawMemory_ctor_def Allocate_def
      split: if_splits outcome.splits prod.splits bool.splits)

section \<open>Emplace: the reallocation\<close>

lemma Emplace_realloc_steps:
  assumes "Emplace_realloc tr offset x (v, e) = Returned u (v', e')"
  obtains new_data e1 n2 e2 o3 n3 e3 o4 n4 o5 where
    "RawMemory_ctor (if size_m v = 0 then 1 else size_m v * 2) e = Returned new_data e1"
    "construct_at args_ctor_exn True (block new_data) offset x e1 = Returned () (n2, e2)"
    "relocate_n tr (block (data_m v)) 0 offset n2 0 e2 = Returned () ((o3, n3), e3)"
    "offset \<le> size_m v"
    "relocate_n tr o3 offset (size_m v - offset) n3 (offset + 1) e3 = Returned () ((o4, n4), e')"
    "destroy_n o4 0 (size_m v) = Some o5"
    "v' = v\<lparr>data_m := (data_m v)\<lparr>buffer_m := buffer_m new_data, capacity_m := capacity_m new_data, block := n4\<rparr>\<rparr>"
  using assms
  by (auto simp: Emplace_realloc_def Let_def RawMemory_Swap_def
      split: outcome.splits prod.splits option.splits if_splits)

lemma Emplace_realloc_Returned:
  assumes "Emplace_realloc tr offset x (v, e) = Returned u (v', e')"
  shows "size_m v' = size_m v"
    and "capacity_m (data_m v') = (if size_m v = 0 then 1 else size_m v * 2)"
    and "buffer_m (data_m v') = Some (next_addr e)"
    and "length (block (data_m v')) = capacity_m (data_m v')"
    and "offset \<le> size_m v" and "size_m v \<le> length (block (data_m v))"
    and "\<forall>i<capacity_m (data_m v'). block (data_m v') ! i =
           (if i < offset then block (data_m v) ! i
            else if i = offset then Obj x
            else if i \<le> size_m v then block (data_m v) ! (i - 1)
            else Raw)"
    and "\<forall>i<size_m v. is_obj (block (data_m v) ! i)"
proof -
  let ?c = "if size_m v = 0 then 1 else size_m v * 2"
  let ?old = "block (data_m v)"
  from assms obtain new_data e1 n2 e2 o3 n3 e3 o4 n4 o5 where
    a: "RawMemory_ctor ?c e = Returned new_data e1"
    and c: "construct_at args_ctor_exn True (block new_data) offset x e1 = Returned () (n2, e2)"
    and r1: "relocate_n tr ?old 0 offset n2 0 e2 = Returned () ((o3, n3), e3)"
    and off: "offset \<le> size_m v"
    and r2: "relocate_n tr o3 offset (size_m v - offset) n3 (offset + 1) e3 = Returned () ((o4, n4), e')"
    and d: "destroy_n o4 0 (size_m v) = Some o5"
    and v': "v' = v\<lparr>data_m := (data_m v)\<lparr>buffer_m := buffer_m new_data, capacity_m := capacity_m new_data, block := n4\<rparr>\<rparr>"
    by (rule Emplace_realloc_steps)
  note A = RawMemory_ctor_Returned [OF a]
  note C = construct_at_Returned [OF c]
  note R1 = relocate_n_Returned [OF r1]
  note R2 = relocate_n_Returned [OF r2]
  note D = destroy_n_Some [OF d]
  show "size_m v' = size_m v" using v' by simp
  show "capacity_m (data_m v') = ?c" using v' A by simp
  show "buffer_m (data_m v') = Some (next_addr e)" using v' A by (simp split: if_splits)
  have len4: "length n4 = ?c" using A C R1 R2 by simp
  show "length (block (data_m v')) = capacity_m (data_m v')" using v' A len4 by simp
  show "offset \<le> size_m v" by (rule off)
  have leno: "length o3 = length ?old" "length o4 = length ?old" using R1 R2 by simp_all
  show sz: "size_m v \<le> length ?old" using D leno by auto
  show "\<forall>i<size_m v. is_obj (?old ! i)"
  proof (intro allI impI)
    fix i assume i: "i < size_m v"
    show "is_obj (?old ! i)"
    proof (cases "i < offset")
      case True
      then show ?thesis using R1 by auto
    next
      case False
      then have "i - offset < size_m v - offset" using i by arith
      then have "is_obj (o3 ! (offset + (i - offset)))" using R2 by blast
      moreover have "i < length ?old" using i sz by simp
      ultimately show ?thesis using False R1 by auto
    qed
  qed
  show "\<forall>i<capacity_m (data_m v'). block (data_m v') ! i =
           (if i < offset then ?old ! i
            else if i = offset then Obj x
            else if i \<le> size_m v then ?old ! (i - 1)
            else Raw)"
  proof (intro allI impI)
    fix i assume "i < capacity_m (data_m v')"
    then have i: "i < ?c" using v' A by simp
    have n2: "n2 ! i = (if i = offset then Obj x else Raw)"
      using C A i by (simp add: nth_list_update)
    have n3: "n3 ! i = (if i < offset then ?old ! i else n2 ! i)"
      using R1 C A i by simp
    have n4: "n4 ! i = (if offset + 1 \<le> i \<and> i < offset + 1 + (size_m v - offset)
        then o3 ! (offset + (i - (offset + 1))) else n3 ! i)"
      using R2 R1 C A i by simp
    have o3: "offset + 1 \<le> i \<Longrightarrow> i \<le> size_m v \<Longrightarrow> o3 ! (offset + (i - (offset + 1))) = ?old ! (i - 1)"
    proof -
      assume h: "offset + 1 \<le> i" "i \<le> size_m v"
      then have eq: "offset + (i - (offset + 1)) = i - 1" by arith
      have "i - 1 < length ?old" using h sz by arith
      moreover have "\<not> (0 \<le> i - 1 \<and> i - 1 < 0 + offset)" using h by arith
      ultimately have "o3 ! (i - 1) = ?old ! (i - 1)" using R1 by blast
      with eq show ?thesis by simp
    qed
    have "block (data_m v') ! i = n4 ! i" using v' by simp
    also have "\<dots> = (if i < offset then ?old ! i
            else if i = offset then Obj x
            else if i \<le> size_m v then ?old ! (i - 1)
            else Raw)"
      using n4 n3 n2 o3 off by auto
    finally show "block (data_m v') ! i = (if i < offset then ?old ! i
            else if i = offset then Obj x
            else if i \<le> size_m v then ?old ! (i - 1)
            else Raw)" .
  qed
qed

section \<open>The loops within one block\<close>

lemma move_assign_Returned:
  "move_assign tr m d s e = Returned u (m', e') \<Longrightarrow>
     s < length m \<and> d < length m \<and> is_obj (m ! s) \<and> is_obj (m ! d) \<and>
     (\<exists>x. m ! s = Obj x \<and> m' = m[d := Obj x, s := Obj (moved_from tr x)])"
  by (auto simp: move_assign_def obj_at_Some_iff split: option.splits outcome.splits prod.splits
      dest!: assign_at_Returned)

lemma move_assign_quiet:
  assumes "s < length m" "d < length m" "is_obj (m ! s)" "is_obj (m ! d)" "nothing_throws e"
  shows "\<exists>m' e'. move_assign tr m d s e = Returned () (m', e') \<and> nothing_throws e'"
proof -
  from assms obtain x where x: "obj_at m s = Some x"
    by (cases "obj_at m s") (auto simp: obj_at_None_iff)
  from assign_at_quiet [OF assms(2) assms(4) assms(5), of move_assign_exn "\<not> nothrow_move_assignable tr" x]
  obtain e1 where "assign_at move_assign_exn (\<not> nothrow_move_assignable tr) m d x e
      = Returned () (m[d := Obj x], e1)" "nothing_throws e1" by blast
  with x show ?thesis by (simp add: move_assign_def)
qed

lemma move_backward_loop_Returned:
  "move_backward_loop tr m count lst (Suc lst) e = Returned u (m', e') \<Longrightarrow>
     length m' = length m \<and> count \<le> lst \<and> (count = 0 \<or> lst < length m) \<and>
     (\<forall>i<length m. i \<noteq> lst - count \<longrightarrow>
        m' ! i = (if lst - count < i \<and> i \<le> lst then m ! (i - 1) else m ! i)) \<and>
     (\<forall>i<length m. is_obj (m' ! i) = is_obj (m ! i))"
proof (induction count arbitrary: m lst e)
  case 0
  then show ?case by auto
next
  case (Suc count)
  from Suc.prems obtain l where l: "lst = Suc l"
    by (cases lst) (auto split: if_splits)
  from Suc.prems l obtain m1 e1 u1 where
    a: "move_assign tr m (Suc l) l e = Returned u1 (m1, e1)"
    and r: "move_backward_loop tr m1 count l (Suc l) e1 = Returned u (m', e')"
    by (auto split: outcome.splits prod.splits if_splits)
  from move_assign_Returned [OF a] obtain x where
    A: "l < length m" "Suc l < length m" "is_obj (m ! Suc l)" "m ! l = Obj x"
       "m1 = m[Suc l := Obj x, l := Obj (moved_from tr x)]"
    by auto
  note ih = Suc.IH [OF r]
  have len: "length m' = length m" using ih A by simp
  have cnt: "Suc count \<le> lst" using ih l by simp
  have cells: "\<forall>i<length m. i \<noteq> lst - Suc count \<longrightarrow>
        m' ! i = (if lst - Suc count < i \<and> i \<le> lst then m ! (i - 1) else m ! i)"
  proof (intro allI impI)
    fix i assume i: "i < length m" "i \<noteq> lst - Suc count"
    then have i': "i < length m1" "i \<noteq> l - count" using A l by simp_all
    with ih have e: "m' ! i = (if l - count < i \<and> i \<le> l then m1 ! (i - 1) else m1 ! i)"
      by blast
    show "m' ! i = (if lst - Suc count < i \<and> i \<le> lst then m ! (i - 1) else m ! i)"
    proof (cases "i = Suc l")
      case True
      then have "m' ! i = m1 ! Suc l" using e by simp
      also have "\<dots> = Obj x" using A by (simp add: nth_list_update)
      also have "\<dots> = m ! (i - 1)" using A True by simp
      finally show ?thesis using True l by auto
    next
      case False
      show ?thesis
      proof (cases "l - count < i \<and> i \<le> l")
        case True
        then have "i - 1 \<noteq> l" "i - 1 \<noteq> Suc l" by arith+
        then have "m1 ! (i - 1) = m ! (i - 1)" using A by (simp add: nth_list_update)
        then show ?thesis using e True l by simp
      next
        case F2: False
        then have "i \<noteq> l" using i' ih by arith
        then have "m1 ! i = m ! i" using A False by (simp add: nth_list_update)
        then show ?thesis using e F2 False l by auto
      qed
    qed
  qed
  have objs: "\<forall>i<length m. is_obj (m' ! i) = is_obj (m ! i)"
    using ih A by (auto simp: nth_list_update split: if_splits)
  from len cnt cells objs A l show ?case by simp
qed

lemma move_backward_loop_quiet:
  "count \<le> lst \<Longrightarrow> lst < length m \<Longrightarrow> (\<forall>i. lst - count \<le> i \<and> i \<le> lst \<longrightarrow> is_obj (m ! i)) \<Longrightarrow>
   nothing_throws e \<Longrightarrow>
   \<exists>m' e'. move_backward_loop tr m count lst (Suc lst) e = Returned () (m', e') \<and> nothing_throws e'"
proof (induction count arbitrary: m lst e)
  case 0
  then show ?case by simp
next
  case (Suc count)
  from Suc.prems obtain l where l: "lst = Suc l" by (cases lst) auto
  have "l < length m" "Suc l < length m" "is_obj (m ! l)" "is_obj (m ! Suc l)"
    using Suc.prems l by auto
  from move_assign_Returned move_assign_quiet [OF this Suc.prems(4), of tr]
  obtain m1 e1 where a: "move_assign tr m (Suc l) l e = Returned () (m1, e1)" and q: "nothing_throws e1"
    by blast
  from move_assign_Returned [OF a] obtain x where
    A: "m1 = m[Suc l := Obj x, l := Obj (moved_from tr x)]" by auto
  have "\<exists>m' e'. move_backward_loop tr m1 count l (Suc l) e1 = Returned () (m', e') \<and> nothing_throws e'"
    using Suc.prems l q A by (intro Suc.IH) (auto simp: nth_list_update)
  with a l show ?case by simp
qed

lemma move_loop_Returned:
  "move_loop tr m (Suc d) count d e = Returned u (m', e') \<Longrightarrow>
     length m' = length m \<and> (count = 0 \<or> d + count < length m) \<and>
     (\<forall>i<length m. i \<noteq> d + count \<longrightarrow>
        m' ! i = (if d \<le> i \<and> i < d + count then m ! Suc i else m ! i)) \<and>
     (\<forall>i<length m. is_obj (m' ! i) = is_obj (m ! i))"
proof (induction count arbitrary: m d e)
  case 0
  then show ?case by auto
next
  case (Suc count)
  from Suc.prems obtain m1 e1 u1 where
    a: "move_assign tr m d (Suc d) e = Returned u1 (m1, e1)"
    and r: "move_loop tr m1 (Suc (Suc d)) count (Suc d) e1 = Returned u (m', e')"
    by (auto split: outcome.splits prod.splits if_splits)
  from move_assign_Returned [OF a] obtain x where
    A: "d < length m" "Suc d < length m" "is_obj (m ! d)" "m ! Suc d = Obj x"
       "m1 = m[d := Obj x, Suc d := Obj (moved_from tr x)]"
    by auto
  note ih = Suc.IH [OF r]
  have len: "length m' = length m" using ih A by simp
  have bnd: "d + Suc count < length m" using ih A by auto
  have cells: "\<forall>i<length m. i \<noteq> d + Suc count \<longrightarrow>
        m' ! i = (if d \<le> i \<and> i < d + Suc count then m ! Suc i else m ! i)"
  proof (intro allI impI)
    fix i assume i: "i < length m" "i \<noteq> d + Suc count"
    then have "i < length m1" "i \<noteq> Suc d + count" using A by simp_all
    with ih have e: "m' ! i = (if Suc d \<le> i \<and> i < Suc d + count then m1 ! Suc i else m1 ! i)"
      by blast
    show "m' ! i = (if d \<le> i \<and> i < d + Suc count then m ! Suc i else m ! i)"
    proof (cases "i = d")
      case True
      then show ?thesis using e A by (simp add: nth_list_update)
    next
      case False
      show ?thesis
      proof (cases "Suc d \<le> i \<and> i < Suc d + count")
        case True
        then have "m1 ! Suc i = m ! Suc i" using A by (simp add: nth_list_update)
        then show ?thesis using e True by simp
      next
        case F2: False
        then have "i \<noteq> Suc d" using i by arith
        then have "m1 ! i = m ! i" using A False by (simp add: nth_list_update)
        then show ?thesis using e F2 False by auto
      qed
    qed
  qed
  have objs: "\<forall>i<length m. is_obj (m' ! i) = is_obj (m ! i)"
    using ih A by (auto simp: nth_list_update split: if_splits)
  from len bnd cells objs show ?case by simp
qed

lemma move_loop_quiet:
  "d + count < length m \<Longrightarrow> (\<forall>i. d \<le> i \<and> i \<le> d + count \<longrightarrow> is_obj (m ! i)) \<Longrightarrow>
   nothing_throws e \<Longrightarrow>
   \<exists>m' e'. move_loop tr m (Suc d) count d e = Returned () (m', e') \<and> nothing_throws e'"
proof (induction count arbitrary: m d e)
  case 0
  then show ?case by simp
next
  case (Suc count)
  have "Suc d < length m" "d < length m" "is_obj (m ! Suc d)" "is_obj (m ! d)"
    using Suc.prems by auto
  from move_assign_quiet [OF this Suc.prems(3), of tr]
  obtain m1 e1 where a: "move_assign tr m d (Suc d) e = Returned () (m1, e1)" and q: "nothing_throws e1"
    by blast
  from move_assign_Returned [OF a] obtain x where
    A: "m1 = m[d := Obj x, Suc d := Obj (moved_from tr x)]" by auto
  have "\<exists>m' e'. move_loop tr m1 (Suc (Suc d)) count (Suc d) e1 = Returned () (m', e') \<and> nothing_throws e'"
    using Suc.prems q A by (intro Suc.IH) (auto simp: nth_list_update)
  with a show ?case by simp
qed

section \<open>Emplace: a block with room\<close>

lemma insert_cells:
  assumes "s \<le> length m" "p \<le> s" "s < length m'"
    and "\<forall>i\<le>s. m' ! i = (if i < p then m ! i else if i = p then c else m ! (i - 1))"
  shows "take (Suc s) m' = take p (take s m) @ c # drop p (take s m)"
proof (rule nth_equalityI)
  show "length (take (Suc s) m') = length (take p (take s m) @ c # drop p (take s m))"
    using assms by simp
next
  fix i assume "i < length (take (Suc s) m')"
  then have i: "i \<le> s" using assms by simp
  have "take (Suc s) m' ! i = m' ! i" using i by simp
  also have "\<dots> = (if i < p then m ! i else if i = p then c else m ! (i - 1))"
    using assms i by blast
  also have "\<dots> = (take p (take s m) @ c # drop p (take s m)) ! i"
  proof (cases "i < p")
    case True
    then show ?thesis using assms i by (simp add: nth_append)
  next
    case False
    show ?thesis
    proof (cases "i = p")
      case True
      then show ?thesis using assms by (simp add: nth_append)
    next
      case F2: False
      then have gt: "p < i" using False by simp
      then have "(take p (take s m) @ c # drop p (take s m)) ! i = (c # drop p (take s m)) ! (i - p)"
        using assms by (simp add: nth_append)
      also have "\<dots> = drop p (take s m) ! (i - p - 1)"
        using gt by (simp add: nth_Cons')
      also have "\<dots> = take s m ! (p + (i - p - 1))"
        using gt i assms by simp
      also have "p + (i - p - 1) = i - 1" using gt by arith
      also have "take s m ! (i - 1) = m ! (i - 1)" using gt i by simp
      finally show ?thesis using False F2 by simp
    qed
  qed
  finally show "take (Suc s) m' ! i = (take p (take s m) @ c # drop p (take s m)) ! i" .
qed

lemma invariantD:
  assumes "invariant v"
  shows "size_m v \<le> capacity_m (data_m v)" "length (block (data_m v)) = capacity_m (data_m v)"
    "(buffer_m (data_m v) = None) = (capacity_m (data_m v) = 0)"
    "\<And>i. i < size_m v \<Longrightarrow> is_obj (block (data_m v) ! i)"
    "\<And>i. size_m v \<le> i \<Longrightarrow> i < capacity_m (data_m v) \<Longrightarrow> block (data_m v) ! i = Raw"
proof -
  from assms show a: "size_m v \<le> capacity_m (data_m v)"
    and b: "length (block (data_m v)) = capacity_m (data_m v)"
    and "(buffer_m (data_m v) = None) = (capacity_m (data_m v) = 0)"
    by (simp_all add: invariant_def)
  from assms have o: "list_all is_obj (take (size_m v) (block (data_m v)))"
    and r: "list_all (\<lambda>c. c = Raw) (drop (size_m v) (block (data_m v)))"
    by (simp_all add: invariant_def)
  show "\<And>i. i < size_m v \<Longrightarrow> is_obj (block (data_m v) ! i)"
  proof -
    fix i assume i: "i < size_m v"
    then have "i < length (take (size_m v) (block (data_m v)))" using a b by simp
    with o have "is_obj (take (size_m v) (block (data_m v)) ! i)"
      by (simp add: list_all_length)
    with i show "is_obj (block (data_m v) ! i)" by simp
  qed
  show "\<And>i. size_m v \<le> i \<Longrightarrow> i < capacity_m (data_m v) \<Longrightarrow> block (data_m v) ! i = Raw"
  proof -
    fix i assume i: "size_m v \<le> i" "i < capacity_m (data_m v)"
    then have "i - size_m v < length (drop (size_m v) (block (data_m v)))" using b by simp
    with r have "drop (size_m v) (block (data_m v)) ! (i - size_m v) = Raw"
      by (simp add: list_all_length)
    with i a b show "block (data_m v) ! i = Raw" by simp
  qed
qed

lemma invariantI:
  assumes "size_m v \<le> capacity_m (data_m v)" "length (block (data_m v)) = capacity_m (data_m v)"
    "(buffer_m (data_m v) = None) = (capacity_m (data_m v) = 0)"
    "\<And>i. i < size_m v \<Longrightarrow> is_obj (block (data_m v) ! i)"
    "\<And>i. size_m v \<le> i \<Longrightarrow> i < capacity_m (data_m v) \<Longrightarrow> block (data_m v) ! i = Raw"
  shows "invariant v"
  using assms by (simp add: invariant_def list_all_length)

lemma Emplace_at_end_Returned:
  assumes "Emplace_at_end offset x (v, e) = Returned u (v', e')"
  shows "offset < length (block (data_m v))"
    "v' = set_block v ((block (data_m v))[offset := Obj x])"
  using assms
  by (auto simp: Emplace_at_end_def split: outcome.splits prod.splits dest!: construct_at_Returned)

lemma Emplace_at_end_quiet:
  assumes "offset < length (block (data_m v))" "nothing_throws e"
  shows "\<exists>v' e'. Emplace_at_end offset x (v, e) = Returned () (v', e') \<and> nothing_throws e'"
  using construct_at_quiet [OF assms, of args_ctor_exn True x]
  by (auto simp: Emplace_at_end_def)

lemma move_construct_Returned:
  "move_construct tr m d s e = Returned u (m', e') \<Longrightarrow>
     s < length m \<and> d < length m \<and>
     (\<exists>y. m ! s = Obj y \<and> m' = m[d := Obj y, s := Obj (moved_from tr y)])"
  by (auto simp: move_construct_def obj_at_Some_iff split: option.splits outcome.splits prod.splits
      dest!: construct_at_Returned)

lemma move_construct_quiet:
  assumes "s < length m" "d < length m" "is_obj (m ! s)" "nothing_throws e"
  shows "\<exists>m' e'. move_construct tr m d s e = Returned () (m', e') \<and> nothing_throws e'"
proof -
  from assms obtain y where y: "obj_at m s = Some y"
    by (cases "obj_at m s") (auto simp: obj_at_None_iff)
  from construct_at_quiet [OF assms(2) assms(4), of move_ctor_exn "\<not> nothrow_move_constructible tr" y]
  obtain e1 where "construct_at move_ctor_exn (\<not> nothrow_move_constructible tr) m d y e
      = Returned () (m[d := Obj y], e1)" "nothing_throws e1" by blast
  with y show ?thesis by (simp add: move_construct_def)
qed

lemma Emplace_inside_steps:
  assumes "Emplace_inside tr offset x (v, e) = Returned u (v', e')"
  obtains e1 m2 e2 m3 e3 m4 where
    "size_m v \<noteq> 0" "offset \<le> size_m v - 1"
    "move_construct tr (block (data_m v)) (size_m v) (size_m v - 1) e1 = Returned () (m2, e2)"
    "move_backward_loop tr m2 (size_m v - 1 - offset) (size_m v - 1) (size_m v) e2 = Returned () (m3, e3)"
    "assign_at move_assign_exn (\<not> nothrow_move_assignable tr) m3 offset x e3 = Returned () (m4, e')"
    "v' = set_block v m4"
  using assms
  by (auto simp: Emplace_inside_def move_backward_def
      split: outcome.splits prod.splits option.splits if_splits bool.splits)

lemma Emplace_inside_Returned:
  assumes "Emplace_inside tr offset x (v, e) = Returned u (v', e')"
  shows "offset < size_m v" "size_m v < length (block (data_m v))"
    "\<exists>m4. v' = set_block v m4 \<and> length m4 = length (block (data_m v)) \<and>
       (\<forall>i<length m4. m4 ! i =
           (if i < offset then block (data_m v) ! i
            else if i = offset then Obj x
            else if i \<le> size_m v then block (data_m v) ! (i - 1)
            else block (data_m v) ! i))"
proof -
  let ?m = "block (data_m v)"
  let ?s = "size_m v"
  from assms obtain e1 m2 e2 m3 e3 m4 where
    s0: "?s \<noteq> 0" and off: "offset \<le> ?s - 1"
    and mc: "move_construct tr ?m ?s (?s - 1) e1 = Returned () (m2, e2)"
    and mb: "move_backward_loop tr m2 (?s - 1 - offset) (?s - 1) ?s e2 = Returned () (m3, e3)"
    and as: "assign_at move_assign_exn (\<not> nothrow_move_assignable tr) m3 offset x e3 = Returned () (m4, e')"
    and v': "v' = set_block v m4"
    by (rule Emplace_inside_steps)
  from move_construct_Returned [OF mc] obtain y where
    M: "?s - 1 < length ?m" "?s < length ?m" "?m ! (?s - 1) = Obj y"
       "m2 = ?m[?s := Obj y, ?s - 1 := Obj (moved_from tr y)]" by auto
  have "?s = Suc (?s - 1)" using s0 by simp
  with mb have "move_backward_loop tr m2 (?s - 1 - offset) (?s - 1) (Suc (?s - 1)) e2 = Returned () (m3, e3)"
    by simp
  note B = move_backward_loop_Returned [OF this]
  note A = assign_at_Returned [OF as]
  have eqo: "?s - 1 - (?s - 1 - offset) = offset" using off by arith
  show "offset < ?s" using off s0 by arith
  show "?s < length ?m" using M by simp
  have len: "length m4 = length ?m" using A B M by simp
  have cells: "\<forall>i<length m4. m4 ! i =
           (if i < offset then ?m ! i
            else if i = offset then Obj x
            else if i \<le> ?s then ?m ! (i - 1)
            else ?m ! i)"
  proof (intro allI impI)
    fix i assume i: "i < length m4"
    show "m4 ! i = (if i < offset then ?m ! i else if i = offset then Obj x
            else if i \<le> ?s then ?m ! (i - 1) else ?m ! i)"
    proof (cases "i = offset")
      case True
      then show ?thesis using A i len B M by simp
    next
      case False
      then have "m4 ! i = m3 ! i" using A by simp
      also have "\<dots> = (if offset < i \<and> i \<le> ?s - 1 then m2 ! (i - 1) else m2 ! i)"
        using B False i len M eqo by simp
      also have "\<dots> = (if i < offset then ?m ! i else if i \<le> ?s then ?m ! (i - 1) else ?m ! i)"
      proof (cases "offset < i \<and> i \<le> ?s - 1")
        case True
        then have "i - 1 \<noteq> ?s" "i - 1 \<noteq> ?s - 1" by arith+
        then have "m2 ! (i - 1) = ?m ! (i - 1)" using M by simp
        then show ?thesis using True by auto
      next
        case F2: False
        show ?thesis
        proof (cases "i = ?s")
          case True
          then have "m2 ! i = Obj y" using M s0 by (simp add: nth_list_update)
          then show ?thesis using True F2 M off s0 by auto
        next
          case F3: False
          then have "i \<noteq> ?s - 1" using F2 False off by arith
          then have "m2 ! i = ?m ! i" using M F3 by simp
          moreover have "i < offset \<or> ?s < i" using F2 F3 False by arith
          ultimately show ?thesis using F2 off by auto
        qed
      qed
      finally show ?thesis using False by simp
    qed
  qed
  from v' len cells show "\<exists>m4. v' = set_block v m4 \<and> length m4 = length ?m \<and>
       (\<forall>i<length m4. m4 ! i =
           (if i < offset then ?m ! i
            else if i = offset then Obj x
            else if i \<le> ?s then ?m ! (i - 1)
            else ?m ! i))" by blast
qed

section \<open>Emplace: return when nothing throws\<close>

lemma Emplace_inside_quiet:
  assumes inv: "invariant v" and off: "offset < size_m v" and cap: "size_m v < capacity_m (data_m v)"
    and q: "nothing_throws e"
  shows "\<exists>v' e'. Emplace_inside tr offset x (v, e) = Returned () (v', e') \<and> nothing_throws e'"
proof -
  let ?m = "block (data_m v)"
  let ?s = "size_m v"
  note I = invariantD [OF inv]
  from raises_quiet [OF q] obtain e1 where r: "raises e = (False, e1)" and q1: "nothing_throws e1"
    by blast
  have "?s - 1 < length ?m" "?s < length ?m" "is_obj (?m ! (?s - 1))"
    using I off cap by simp_all
  from move_construct_quiet [OF this q1, of tr] obtain m2 e2 where
    mc: "move_construct tr ?m ?s (?s - 1) e1 = Returned () (m2, e2)" and q2: "nothing_throws e2"
    by blast
  from move_construct_Returned [OF mc] obtain y where
    M: "m2 = ?m[?s := Obj y, ?s - 1 := Obj (moved_from tr y)]" by auto
  have s: "?s = Suc (?s - 1)" using off by simp
  have "\<exists>m3 e3. move_backward_loop tr m2 (?s - 1 - offset) (?s - 1) (Suc (?s - 1)) e2
      = Returned () (m3, e3) \<and> nothing_throws e3"
  proof (rule move_backward_loop_quiet)
    show "?s - 1 - offset \<le> ?s - 1" by simp
    show "?s - 1 < length m2" using M I cap by simp
    show "\<forall>i. ?s - 1 - (?s - 1 - offset) \<le> i \<and> i \<le> ?s - 1 \<longrightarrow> is_obj (m2 ! i)"
    proof (intro allI impI)
      fix i assume "?s - 1 - (?s - 1 - offset) \<le> i \<and> i \<le> ?s - 1"
      then have i: "i < ?s" using off by arith
      then have il: "i < length ?m" "i \<noteq> ?s" using I cap by simp_all
      show "is_obj (m2 ! i)"
      proof (cases "i = ?s - 1")
        case True
        then show ?thesis using M il I cap by simp
      next
        case False
        then have "m2 ! i = ?m ! i" using M il by simp
        then show ?thesis using I(4) [OF i] by simp
      qed
    qed
    show "nothing_throws e2" by (rule q2)
  qed
  then obtain m3 e3 where
    mb: "move_backward_loop tr m2 (?s - 1 - offset) (?s - 1) ?s e2 = Returned () (m3, e3)"
    and q3: "nothing_throws e3" using s by auto
  from mb s have "move_backward_loop tr m2 (?s - 1 - offset) (?s - 1) (Suc (?s - 1)) e2 = Returned () (m3, e3)"
    by simp
  note B = move_backward_loop_Returned [OF this]
  have "offset < length m3" using B M I off cap by simp
  moreover have "is_obj (m3 ! offset)"
  proof -
    have "offset < length m2" using M I off cap by simp
    then have "is_obj (m3 ! offset) = is_obj (m2 ! offset)" using B by blast
    moreover have "is_obj (m2 ! offset)"
    proof (cases "offset = ?s - 1")
      case True
      then show ?thesis using M I cap off by simp
    next
      case False
      then have "m2 ! offset = ?m ! offset" using M off by simp
      then show ?thesis using I(4) [OF off] by simp
    qed
    ultimately show ?thesis by simp
  qed
  ultimately obtain e4 where
    as: "assign_at move_assign_exn (\<not> nothrow_move_assignable tr) m3 offset x e3
      = Returned () (m3[offset := Obj x], e4)" and q4: "nothing_throws e4"
    using assign_at_quiet [of offset m3 e3 move_assign_exn "\<not> nothrow_move_assignable tr" x] q3
    by blast
  have "\<not> ?s - 1 < offset" "?s \<noteq> 0" using off by simp_all
  with r mc mb as have "Emplace_inside tr offset x (v, e) = Returned () (set_block v (m3[offset := Obj x]), e4)"
    by (simp add: Emplace_inside_def move_backward_def)
  with q4 show ?thesis by blast
qed

lemma Emplace_realloc_quiet:
  fixes v :: "'a Vector"
  assumes inv: "invariant v" and off: "offset \<le> size_m v" and q: "nothing_throws e"
  shows "\<exists>v' e'. Emplace_realloc tr offset x (v, e) = Returned () (v', e') \<and> nothing_throws e'"
proof -
  let ?m = "block (data_m v)"
  let ?s = "size_m v"
  let ?c = "if ?s = 0 then 1 else ?s * 2"
  note I = invariantD [OF inv]
  from RawMemory_ctor_quiet [OF q] obtain new_data :: "'a RawMemory" and e1 where
    a: "RawMemory_ctor ?c e = Returned new_data e1" and q1: "nothing_throws e1" by blast
  note A = RawMemory_ctor_Returned [OF a]
  have "offset < length (block new_data)" using A off by (simp split: if_splits)
  from construct_at_quiet [OF this q1, of args_ctor_exn True x] obtain e2 where
    c: "construct_at args_ctor_exn True (block new_data) offset x e1
       = Returned () ((block new_data)[offset := Obj x], e2)" and q2: "nothing_throws e2" by blast
  let ?n2 = "(block new_data)[offset := Obj x]"
  have "\<exists>o3 n3 e3. relocate_n tr ?m 0 offset ?n2 0 e2 = Returned () ((o3, n3), e3) \<and> nothing_throws e3"
  proof (rule relocate_n_quiet)
    show "0 + offset \<le> length ?m" using I off by simp
    show "\<forall>k<offset. is_obj (?m ! (0 + k))" using I(4) off by simp
    show "0 + offset \<le> length ?n2" using A off by (simp split: if_splits)
    show "nothing_throws e2" by (rule q2)
  qed
  then obtain o3 n3 e3 where
    r1: "relocate_n tr ?m 0 offset ?n2 0 e2 = Returned () ((o3, n3), e3)" and q3: "nothing_throws e3"
    by blast
  note R1 = relocate_n_Returned [OF r1]
  have "\<exists>o4 n4 e4. relocate_n tr o3 offset (?s - offset) n3 (offset + 1) e3 = Returned () ((o4, n4), e4)
      \<and> nothing_throws e4"
  proof (rule relocate_n_quiet)
    show "offset + (?s - offset) \<le> length o3" using R1 I off by simp
    show "\<forall>k<?s - offset. is_obj (o3 ! (offset + k))"
    proof (intro allI impI)
      fix k assume "k < ?s - offset"
      then have k: "offset + k < ?s" by arith
      then have "offset + k < length ?m" using I by simp
      then have "is_obj (o3 ! (offset + k)) = is_obj (?m ! (offset + k))" using R1 by blast
      with I(4) [OF k] show "is_obj (o3 ! (offset + k))" by simp
    qed
    show "offset + 1 + (?s - offset) \<le> length n3" using R1 A off by (simp split: if_splits)
    show "nothing_throws e3" by (rule q3)
  qed
  then obtain o4 n4 e4 where
    r2: "relocate_n tr o3 offset (?s - offset) n3 (offset + 1) e3 = Returned () ((o4, n4), e4)"
    and q4: "nothing_throws e4" by blast
  note R2 = relocate_n_Returned [OF r2]
  have "\<exists>o5. destroy_n o4 0 ?s = Some o5"
  proof (rule destroy_n_ok)
    show "0 + ?s \<le> length o4" using R1 R2 I by simp
    show "\<forall>i. 0 \<le> i \<and> i < 0 + ?s \<longrightarrow> is_obj (o4 ! i)"
    proof (intro allI impI)
      fix i assume "0 \<le> i \<and> i < 0 + ?s"
      then have i: "i < ?s" by simp
      then have il: "i < length ?m" using I by simp
      then have "is_obj (o4 ! i) = is_obj (o3 ! i)" using R1 R2 by simp
      also have "\<dots> = is_obj (?m ! i)" using R1 il by blast
      finally show "is_obj (o4 ! i)" using I(4) [OF i] by simp
    qed
  qed
  then obtain o5 where d: "destroy_n o4 0 ?s = Some o5" by blast
  have "\<not> ?s < offset" using off by simp
  with a c r1 r2 d have "\<exists>v'. Emplace_realloc tr offset x (v, e) = Returned () (v', e4)"
    by (simp add: Emplace_realloc_def Let_def RawMemory_Swap_def)
  with q4 show ?thesis by blast
qed

lemma Emplace_branch:
  assumes "Emplace tr (buffer_m (data_m v), p) x (v, e) = Returned it (v', e')"
  obtains u v1 where
    "(if size_m v < capacity_m (data_m v)
      then (if p = size_m v then Emplace_at_end p x (v, e) else Emplace_inside tr p x (v, e))
      else Emplace_realloc tr p x (v, e)) = Returned u (v1, e')"
    "v' = v1\<lparr>size_m := size_m v1 + 1\<rparr>" "it = (buffer_m (data_m v'), p)"
  using assms
  by (auto simp: Emplace_def ptr_diff_def begin_it_def end_it_def GetAddress_def Capacity_def Let_def
      split: outcome.splits prod.splits if_splits)

lemma Emplace_cells:
  assumes inv: "invariant v" and p: "p \<le> size_m v"
    and r: "Emplace tr (buffer_m (data_m v), p) x (v, e) = Returned it (v', e')"
  shows "size_m v' = Suc (size_m v)" "it = (buffer_m (data_m v'), p)"
    "size_m v' \<le> capacity_m (data_m v')" "length (block (data_m v')) = capacity_m (data_m v')"
    "(buffer_m (data_m v') = None) = (capacity_m (data_m v') = 0)"
    "\<forall>i<capacity_m (data_m v'). block (data_m v') ! i =
       (if i < p then block (data_m v) ! i
        else if i = p then Obj x
        else if i \<le> size_m v then block (data_m v) ! (i - 1)
        else Raw)"
    "size_m v = capacity_m (data_m v) \<longrightarrow>
       capacity_m (data_m v') = (if size_m v = 0 then 1 else size_m v * 2) \<and>
       buffer_m (data_m v') = Some (next_addr e)"
    "size_m v < capacity_m (data_m v) \<longrightarrow>
       capacity_m (data_m v') = capacity_m (data_m v) \<and> buffer_m (data_m v') = buffer_m (data_m v)"
proof -
  let ?m = "block (data_m v)"
  let ?s = "size_m v"
  note I = invariantD [OF inv]
  from r obtain u v1 where
    b: "(if ?s < capacity_m (data_m v)
      then (if p = ?s then Emplace_at_end p x (v, e) else Emplace_inside tr p x (v, e))
      else Emplace_realloc tr p x (v, e)) = Returned u (v1, e')"
    and v': "v' = v1\<lparr>size_m := size_m v1 + 1\<rparr>" and it: "it = (buffer_m (data_m v'), p)"
    by (rule Emplace_branch)
  show "it = (buffer_m (data_m v'), p)" by (rule it)
  have main: "size_m v1 = ?s \<and> ?s < capacity_m (data_m v1) \<and>
     length (block (data_m v1)) = capacity_m (data_m v1) \<and>
     ((buffer_m (data_m v1) = None) = (capacity_m (data_m v1) = 0)) \<and>
     (\<forall>i<capacity_m (data_m v1). block (data_m v1) ! i =
       (if i < p then ?m ! i else if i = p then Obj x
        else if i \<le> ?s then ?m ! (i - 1) else Raw)) \<and>
     (?s = capacity_m (data_m v) \<longrightarrow>
       capacity_m (data_m v1) = (if ?s = 0 then 1 else ?s * 2) \<and>
       buffer_m (data_m v1) = Some (next_addr e)) \<and>
     (?s < capacity_m (data_m v) \<longrightarrow>
       capacity_m (data_m v1) = capacity_m (data_m v) \<and> buffer_m (data_m v1) = buffer_m (data_m v))"
  proof (cases "?s < capacity_m (data_m v)")
    case room: True
    show ?thesis
    proof (cases "p = ?s")
      case True
      with b room have "Emplace_at_end p x (v, e) = Returned u (v1, e')" by simp
      from Emplace_at_end_Returned [OF this] have v1: "v1 = set_block v (?m[p := Obj x])" by simp
      have "\<forall>i<capacity_m (data_m v). (?m[p := Obj x]) ! i =
         (if i < p then ?m ! i else if i = p then Obj x
          else if i \<le> ?s then ?m ! (i - 1) else Raw)"
        using I True by (auto simp: nth_list_update)
      then show ?thesis using v1 I room by (simp add: set_block_def)
    next
      case False
      with b room have "Emplace_inside tr p x (v, e) = Returned u (v1, e')" by simp
      from Emplace_inside_Returned [OF this] obtain m4 where
        v1: "v1 = set_block v m4" and len: "length m4 = length ?m"
        and cells: "\<forall>i<length m4. m4 ! i =
           (if i < p then ?m ! i else if i = p then Obj x
            else if i \<le> ?s then ?m ! (i - 1) else ?m ! i)"
        by blast
      have "\<forall>i<capacity_m (data_m v). m4 ! i =
           (if i < p then ?m ! i else if i = p then Obj x
            else if i \<le> ?s then ?m ! (i - 1) else Raw)"
        using cells len I by auto
      then show ?thesis using v1 I room len by (simp add: set_block_def)
    qed
  next
    case False
    with b have e: "Emplace_realloc tr p x (v, e) = Returned u (v1, e')" by simp
    from False I have full: "?s = capacity_m (data_m v)" by simp
    note E = Emplace_realloc_Returned [OF e]
    have "?s < capacity_m (data_m v1)" using E(2) by (simp split: if_splits)
    moreover have "(buffer_m (data_m v1) = None) = (capacity_m (data_m v1) = 0)"
      using E(2) E(3) by (simp split: if_splits)
    ultimately show ?thesis using E full by simp
  qed
  show "size_m v' = Suc ?s" using v' main by simp
  show "size_m v' \<le> capacity_m (data_m v')" using v' main by simp
  show "length (block (data_m v')) = capacity_m (data_m v')" using v' main by simp
  show "(buffer_m (data_m v') = None) = (capacity_m (data_m v') = 0)" using v' main by simp
  show "\<forall>i<capacity_m (data_m v'). block (data_m v') ! i =
       (if i < p then ?m ! i else if i = p then Obj x
        else if i \<le> ?s then ?m ! (i - 1) else Raw)" using v' main by simp
  show "?s = capacity_m (data_m v) \<longrightarrow>
       capacity_m (data_m v') = (if ?s = 0 then 1 else ?s * 2) \<and>
       buffer_m (data_m v') = Some (next_addr e)" using v' main by simp
  show "?s < capacity_m (data_m v) \<longrightarrow>
       capacity_m (data_m v') = capacity_m (data_m v) \<and> buffer_m (data_m v') = buffer_m (data_m v)"
    using v' main by simp
qed

section \<open>Emplace and Insert\<close>

lemma Emplace_unfold:
  "Emplace tr (buffer_m (data_m v), p) x (v, e) =
     (case (if size_m v < capacity_m (data_m v)
            then (if p = size_m v then Emplace_at_end p x (v, e) else Emplace_inside tr p x (v, e))
            else Emplace_realloc tr p x (v, e)) of
        Undefined \<Rightarrow> Undefined
      | Thrown ex s' \<Rightarrow> Thrown ex s'
      | Returned _ (v', e') \<Rightarrow>
          Returned (buffer_m (data_m v'), p) (v'\<lparr>size_m := size_m v' + 1\<rparr>, e'))"
  by (simp add: Emplace_def ptr_diff_def begin_it_def end_it_def GetAddress_def Capacity_def Let_def
      split: outcome.splits prod.splits)

lemma Emplace_quiet:
  fixes v :: "'a Vector"
  assumes inv: "invariant v" and p: "p \<le> size_m v" and q: "nothing_throws e"
  shows "\<exists>it v' e'. Emplace tr (buffer_m (data_m v), p) x (v, e) = Returned it (v', e')"
proof -
  note I = invariantD [OF inv]
  show ?thesis
  proof (cases "size_m v < capacity_m (data_m v)")
    case room: True
    show ?thesis
    proof (cases "p = size_m v")
      case True
      then have "p < length (block (data_m v))" using room I by simp
      from Emplace_at_end_quiet [OF this q, of x] obtain v1 e1 where
        "Emplace_at_end p x (v, e) = Returned () (v1, e1)" by blast
      then show ?thesis using True room by (simp add: Emplace_unfold)
    next
      case False
      then have "p < size_m v" using p by simp
      from Emplace_inside_quiet [OF inv this room q, of tr x] obtain v1 e1 where
        "Emplace_inside tr p x (v, e) = Returned () (v1, e1)" by blast
      then show ?thesis using False room by (simp add: Emplace_unfold)
    qed
  next
    case False
    from Emplace_realloc_quiet [OF inv p q, of tr x] obtain v1 e1 where
      "Emplace_realloc tr p x (v, e) = Returned () (v1, e1)" by blast
    then show ?thesis using False by (simp add: Emplace_unfold)
  qed
qed

lemma Emplace_contents:
  assumes inv: "invariant v" and p: "p \<le> size_m v"
    and r: "Emplace tr (buffer_m (data_m v), p) x (v, e) = Returned it (v', e')"
  shows "contents v' = take p (contents v) @ Obj x # drop p (contents v)"
    and "invariant v'" and "at_index v' p = Some x"
proof -
  note I = invariantD [OF inv]
  note C = Emplace_cells [OF inv p r]
  let ?m = "block (data_m v)" and ?m' = "block (data_m v')"
  have c: "\<forall>i\<le>size_m v. ?m' ! i = (if i < p then ?m ! i else if i = p then Obj x else ?m ! (i - 1))"
    using C(1,3,6) by auto
  have "take (Suc (size_m v)) ?m' = take p (take (size_m v) ?m) @ Obj x # drop p (take (size_m v) ?m)"
    using I p C(1,3,4) c by (intro insert_cells) simp_all
  then show "contents v' = take p (contents v) @ Obj x # drop p (contents v)"
    using C(1) by (simp add: contents_def)
  show "invariant v'"
  proof (rule invariantI)
    show "size_m v' \<le> capacity_m (data_m v')" by (rule C(3))
    show "length ?m' = capacity_m (data_m v')" by (rule C(4))
    show "(buffer_m (data_m v') = None) = (capacity_m (data_m v') = 0)" by (rule C(5))
    show "\<And>i. i < size_m v' \<Longrightarrow> is_obj (?m' ! i)"
    proof -
      fix i assume "i < size_m v'"
      then have i: "i \<le> size_m v" using C(1) by simp
      then have "?m' ! i = (if i < p then ?m ! i else if i = p then Obj x else ?m ! (i - 1))"
        using c by blast
      moreover have "i < p \<Longrightarrow> is_obj (?m ! i)" using I(4) p by simp
      moreover have "\<not> i < p \<Longrightarrow> i \<noteq> p \<Longrightarrow> is_obj (?m ! (i - 1))" using I(4) [of "i - 1"] i by simp
      ultimately show "is_obj (?m' ! i)" by auto
    qed
    show "\<And>i. size_m v' \<le> i \<Longrightarrow> i < capacity_m (data_m v') \<Longrightarrow> ?m' ! i = Raw"
      using C(1,6) p by auto
  qed
  have "p < length ?m'" using C(1,3,4) p by simp
  moreover have "?m' ! p = Obj x" using c p by simp
  ultimately show "at_index v' p = Some x" by (simp add: at_index_def obj_at_Some_iff)
qed

text \<open>
  C3. For every vector that satisfies the class invariant, of size \<open>s\<close>, and every
  position \<open>begin() + p\<close> with \<open>p \<le> s\<close>: when no step throws,
  \<^verbatim>\<open>Emplace\<close> returns; and whenever it returns, the size is \<open>s + 1\<close>, the
  cells \<open>[0, p)\<close> are as before, cell \<open>p\<close> holds the new element, the former cells
  \<open>[p, s)\<close> follow it, one place to the right, and the pointer returned is
  \<open>begin() + p\<close> of the vector after the call. \<^verbatim>\<open>Insert\<close> is
  \<^verbatim>\<open>Emplace\<close>.
\<close>

theorem Emplace_inserts:
  assumes "invariant v" and "p \<le> Size v"
  shows "(nothing_throws e \<longrightarrow>
            (\<exists>it v' e'. Emplace tr (RawMemory_plus (data_m v) p) x (v, e) = Returned it (v', e'))) \<and>
         (\<forall>it v' e'. Emplace tr (RawMemory_plus (data_m v) p) x (v, e) = Returned it (v', e') \<longrightarrow>
            Size v' = Size v + 1 \<and>
            contents v' = take p (contents v) @ Obj x # drop p (contents v) \<and>
            at_index v' p = Some x \<and>
            it = RawMemory_plus (data_m v') p) \<and>
         Insert tr (RawMemory_plus (data_m v) p) x (v, e) = Emplace tr (RawMemory_plus (data_m v) p) x (v, e)"
proof (intro conjI impI allI)
  from assms have p: "p \<le> size_m v" by (simp add: Size_def)
  note inv = assms(1)
  {
    assume "nothing_throws e"
    from Emplace_quiet [OF inv p this]
    show "\<exists>it v' e'. Emplace tr (RawMemory_plus (data_m v) p) x (v, e) = Returned it (v', e')"
      by (simp add: RawMemory_plus_def)
  }
  {
    fix it v' e'
    assume "Emplace tr (RawMemory_plus (data_m v) p) x (v, e) = Returned it (v', e')"
    then have r: "Emplace tr (buffer_m (data_m v), p) x (v, e) = Returned it (v', e')"
      by (simp add: RawMemory_plus_def)
    from Emplace_cells(1) [OF inv p r] show "Size v' = Size v + 1" by (simp add: Size_def)
    from Emplace_contents(1) [OF inv p r]
    show "contents v' = take p (contents v) @ Obj x # drop p (contents v)" .
    from Emplace_contents(3) [OF inv p r] show "at_index v' p = Some x" .
    from Emplace_cells(2) [OF inv p r] show "it = RawMemory_plus (data_m v') p"
      by (simp add: RawMemory_plus_def)
  }
  show "Insert tr (RawMemory_plus (data_m v) p) x (v, e) = Emplace tr (RawMemory_plus (data_m v) p) x (v, e)"
    by (simp add: Insert_def)
qed

theorem Emplace_inserts_witness:
  "invariant two_ints \<and> 1 \<le> Size two_ints \<and>
   Insert int_traits (RawMemory_plus (data_m two_ints) 1) 42 (two_ints, \<lparr>sched = [], next_addr = 2\<rparr>)
     = Returned (Some 2, 1)
         (\<lparr>data_m = \<lparr>buffer_m = Some 2, capacity_m = 4, block = [Obj 1, Obj 42, Obj 2, Raw]\<rparr>,
           size_m = 3\<rparr>, \<lparr>sched = [], next_addr = 3\<rparr>) \<and>
   contents \<lparr>data_m = \<lparr>buffer_m = Some 2, capacity_m = 4, block = [Obj 1, Obj 42, Obj 2, Raw]\<rparr>,
           size_m = 3\<rparr> = [Obj 1, Obj 42, Obj (2::int)]"
proof -
  let ?v' = "\<lparr>data_m = \<lparr>buffer_m = Some 2, capacity_m = 4, block = [Obj 1, Obj 42, Obj (2::int), Raw]\<rparr>,
           size_m = 3\<rparr>"
  let ?e = "\<lparr>sched = [], next_addr = 2\<rparr>"
  have i: "invariant two_ints" by code_simp
  have p: "1 \<le> Size two_ints" by code_simp
  have r: "Emplace int_traits (RawMemory_plus (data_m two_ints) 1) 42 (two_ints, ?e)
     = Returned (Some 2, 1) (?v', \<lparr>sched = [], next_addr = 3\<rparr>)" by code_simp
  note T = Emplace_inserts [OF i p, of ?e int_traits 42]
  from T have ins: "Insert int_traits (RawMemory_plus (data_m two_ints) 1) 42 (two_ints, ?e)
     = Emplace int_traits (RawMemory_plus (data_m two_ints) 1) 42 (two_ints, ?e)" by blast
  from T r have "contents ?v' = take 1 (contents two_ints) @ Obj 42 # drop 1 (contents two_ints)"
    by blast
  then have "contents ?v' = [Obj 1, Obj 42, Obj 2]"
    by (simp add: contents_def two_ints_def)
  with i p r ins show ?thesis by simp
qed

lemma Emplace_full_branch:
  assumes "Emplace tr pos x (v, e) = Returned it (v', e')" "size_m v = capacity_m (data_m v)"
  obtains offset u v1 where
    "Emplace_realloc tr offset x (v, e) = Returned u (v1, e')" "v' = v1\<lparr>size_m := size_m v1 + 1\<rparr>"
  using assms
  by (auto simp: Emplace_def Capacity_def Let_def split: option.splits outcome.splits prod.splits)

lemma PushBack_with_capacity:
  assumes "PushBack_with ex b tr x (v, e) = Returned u (v', e')" "size_m v = capacity_m (data_m v)"
  shows "capacity_m (data_m v') = (if size_m v = 0 then 1 else 2 * size_m v)"
  using assms
  by (auto simp: PushBack_with_def Capacity_def Let_def RawMemory_Swap_def
      split: option.splits outcome.splits prod.splits if_splits dest!: RawMemory_ctor_Returned)

lemma Emplace_capacity:
  assumes "Emplace tr pos x (v, e) = Returned it (v', e')" "size_m v = capacity_m (data_m v)"
  shows "capacity_m (data_m v') = (if size_m v = 0 then 1 else 2 * size_m v)"
proof -
  from assms obtain offset u v1 where
    r: "Emplace_realloc tr offset x (v, e) = Returned u (v1, e')" and v': "v' = v1\<lparr>size_m := size_m v1 + 1\<rparr>"
    by (rule Emplace_full_branch)
  from Emplace_realloc_Returned(2) [OF r] v' show ?thesis by simp
qed

lemma PushBack_with_quiet:
  fixes v :: "'a Vector"
  assumes inv: "invariant v" and q: "nothing_throws e"
  shows "\<exists>v' e'. PushBack_with ex b tr x (v, e) = Returned () (v', e') \<and> nothing_throws e'"
proof (cases "size_m v = capacity_m (data_m v)")
  case full: True
  let ?m = "block (data_m v)"
  let ?s = "size_m v"
  let ?c = "if ?s = 0 then 1 else ?s * 2"
  note I = invariantD [OF inv]
  from RawMemory_ctor_quiet [OF q] obtain new_data :: "'a RawMemory" and e1 where
    a: "RawMemory_ctor ?c e = Returned new_data e1" and q1: "nothing_throws e1" by blast
  note A = RawMemory_ctor_Returned [OF a]
  have "\<exists>o2 n2 e2. relocate_n tr ?m 0 ?s (block new_data) 0 e1 = Returned () ((o2, n2), e2) \<and> nothing_throws e2"
  proof (rule relocate_n_quiet)
    show "0 + ?s \<le> length ?m" using I by simp
    show "\<forall>k<?s. is_obj (?m ! (0 + k))" using I(4) by simp
    show "0 + ?s \<le> length (block new_data)" using A by (simp split: if_splits)
    show "nothing_throws e1" by (rule q1)
  qed
  then obtain o2 n2 e2 where
    r: "relocate_n tr ?m 0 ?s (block new_data) 0 e1 = Returned () ((o2, n2), e2)" and q2: "nothing_throws e2"
    by blast
  note R = relocate_n_Returned [OF r]
  have "?s < length n2" using R A by (simp split: if_splits)
  from construct_at_quiet [OF this q2, of ex b x] obtain e3 where
    c: "construct_at ex b n2 ?s x e2 = Returned () (n2[?s := Obj x], e3)" and q3: "nothing_throws e3"
    by blast
  have "\<exists>o4. destroy_n o2 0 ?s = Some o4"
  proof (rule destroy_n_ok)
    show "0 + ?s \<le> length o2" using R I by simp
    show "\<forall>i. 0 \<le> i \<and> i < 0 + ?s \<longrightarrow> is_obj (o2 ! i)"
    proof (intro allI impI)
      fix i assume "0 \<le> i \<and> i < 0 + ?s"
      then have i: "i < ?s" by simp
      then have "i < length ?m" using I by simp
      then have "is_obj (o2 ! i) = is_obj (?m ! i)" using R by blast
      with I(4) [OF i] show "is_obj (o2 ! i)" by simp
    qed
  qed
  then obtain o4 where d: "destroy_n o2 0 ?s = Some o4" by blast
  from full a r c d have "\<exists>v'. PushBack_with ex b tr x (v, e) = Returned () (v', e3)"
    by (simp add: PushBack_with_def Capacity_def Let_def RawMemory_Swap_def)
  with q3 show ?thesis by blast
next
  case False
  note I = invariantD [OF inv]
  from False I have "size_m v < length (block (data_m v))" by simp
  from construct_at_quiet [OF this q, of ex b x] obtain e1 where
    "construct_at ex b (block (data_m v)) (size_m v) x e
       = Returned () ((block (data_m v))[size_m v := Obj x], e1)" "nothing_throws e1" by blast
  with False show ?thesis by (auto simp: PushBack_with_def Capacity_def)
qed

section \<open>Failure and growth in the reallocation\<close>

lemma Emplace_realloc_Thrown:
  assumes "Emplace_realloc tr offset x (v, e) = Thrown ex (v', e')" "ex = bad_alloc \<or> ex = args_ctor_exn"
  shows "v' = v"
  using assms
  by (auto simp: Emplace_realloc_def Let_def RawMemory_Swap_def
      split: outcome.splits prod.splits option.splits if_splits
      dest: relocate_n_exn construct_at_Thrown RawMemory_ctor_Thrown)

lemma Emplace_full_Thrown:
  assumes "Emplace tr pos x (v, e) = Thrown ex (v', e')" "size_m v = capacity_m (data_m v)"
  obtains offset where "Emplace_realloc tr offset x (v, e) = Thrown ex (v', e')"
  using assms
  by (auto simp: Emplace_def Capacity_def Let_def split: option.splits outcome.splits prod.splits)

text \<open>
  C2. For a vector whose size equals its capacity: whenever \<^verbatim>\<open>Emplace\<close> (and
  \<^verbatim>\<open>Insert\<close>, which calls it) leaves by the exception of the allocation or by
  the exception of the constructor of the new element, the vector in the state after
  the call is the vector before it: size, capacity, address of the block and every cell.
  And for a position \<open>begin() + p\<close>, \<open>p \<le> size\<close>: when the first fallible step, the
  allocation, throws, the call leaves with \<open>bad_alloc\<close>; when the allocation
  succeeds and the second fallible step throws, the call leaves with the exception of
  the constructor of the new element, the vector unchanged: the construction of the new
  element is the first step after the allocation, before any element of the old block
  is copied, moved or destroyed.
\<close>

theorem Emplace_realloc_strong_guarantee:
  assumes "Size v = Capacity v" and "p \<le> Size v"
  shows "(\<forall>pos ex v' e'. Emplace tr pos x (v, e) = Thrown ex (v', e') \<and>
              (ex = bad_alloc \<or> ex = args_ctor_exn) \<longrightarrow> v' = v) \<and>
         (\<forall>pos ex v' e'. Insert tr pos x (v, e) = Thrown ex (v', e') \<and>
              (ex = bad_alloc \<or> ex = args_ctor_exn) \<longrightarrow> v' = v) \<and>
         (\<forall>rest. sched e = True # rest \<longrightarrow>
            Emplace tr (RawMemory_plus (data_m v) p) x (v, e) = Thrown bad_alloc (v, e\<lparr>sched := rest\<rparr>)) \<and>
         (\<forall>rest. sched e = False # True # rest \<longrightarrow>
            Emplace tr (RawMemory_plus (data_m v) p) x (v, e)
              = Thrown args_ctor_exn (v, e\<lparr>sched := rest, next_addr := Suc (next_addr e)\<rparr>))"
proof (intro conjI allI impI)
  from assms have full: "size_m v = capacity_m (data_m v)" and p: "p \<le> size_m v"
    by (simp_all add: Size_def Capacity_def)
  {
    fix pos ex v' e'
    assume a: "Emplace tr pos x (v, e) = Thrown ex (v', e') \<and> (ex = bad_alloc \<or> ex = args_ctor_exn)"
    then obtain offset where "Emplace_realloc tr offset x (v, e) = Thrown ex (v', e')"
      using full by (blast elim: Emplace_full_Thrown)
    with a show "v' = v" by (blast dest: Emplace_realloc_Thrown)
  }
  note emplace = this
  {
    fix pos ex v' e'
    assume "Insert tr pos x (v, e) = Thrown ex (v', e') \<and> (ex = bad_alloc \<or> ex = args_ctor_exn)"
    then have "Emplace tr pos x (v, e) = Thrown ex (v', e') \<and> (ex = bad_alloc \<or> ex = args_ctor_exn)"
      by (simp add: Insert_def)
    then show "v' = v" by (rule emplace)
  }
  {
    fix rest assume "sched e = True # rest"
    then show "Emplace tr (RawMemory_plus (data_m v) p) x (v, e) = Thrown bad_alloc (v, e\<lparr>sched := rest\<rparr>)"
      using full
      by (simp add: RawMemory_plus_def Emplace_unfold Emplace_realloc_def RawMemory_ctor_def
          Allocate_def raises_def)
  }
  {
    fix rest assume "sched e = False # True # rest"
    then show "Emplace tr (RawMemory_plus (data_m v) p) x (v, e)
        = Thrown args_ctor_exn (v, e\<lparr>sched := rest, next_addr := Suc (next_addr e)\<rparr>)"
      using full p
      by (simp add: RawMemory_plus_def Emplace_unfold Emplace_realloc_def RawMemory_ctor_def
          Allocate_def raises_def construct_at_def)
  }
qed

theorem Emplace_realloc_strong_guarantee_witness:
  "Size one_string = Capacity one_string \<and> 0 \<le> Size one_string \<and>
   Emplace string_traits (RawMemory_plus (data_m one_string) 0) ''cd''
      (one_string, \<lparr>sched = [False, True], next_addr = 2\<rparr>)
     = Thrown args_ctor_exn (one_string, \<lparr>sched = [], next_addr = 3\<rparr>) \<and>
   Emplace string_traits (RawMemory_plus (data_m one_string) 0) ''cd''
      (one_string, \<lparr>sched = [True], next_addr = 2\<rparr>)
     = Thrown bad_alloc (one_string, \<lparr>sched = [], next_addr = 2\<rparr>)"
proof -
  have f: "Size one_string = Capacity one_string" by code_simp
  have p: "0 \<le> Size one_string" by simp
  from Emplace_realloc_strong_guarantee [OF f p, where e = "\<lparr>sched = [False, True], next_addr = 2\<rparr>"
      and tr = string_traits and x = "''cd''"]
  have a: "Emplace string_traits (RawMemory_plus (data_m one_string) 0) ''cd''
      (one_string, \<lparr>sched = [False, True], next_addr = 2\<rparr>)
     = Thrown args_ctor_exn (one_string, \<lparr>sched = [], next_addr = 3\<rparr>)" by simp
  from Emplace_realloc_strong_guarantee [OF f p, where e = "\<lparr>sched = [True], next_addr = 2\<rparr>"
      and tr = string_traits and x = "''cd''"]
  have b: "Emplace string_traits (RawMemory_plus (data_m one_string) 0) ''cd''
      (one_string, \<lparr>sched = [True], next_addr = 2\<rparr>)
     = Thrown bad_alloc (one_string, \<lparr>sched = [], next_addr = 2\<rparr>)" by simp
  from f p a b show ?thesis by simp
qed

text \<open>
  C7. For a vector whose size equals its capacity, every insertion that returns
  (\<^verbatim>\<open>PushBack\<close> of either overload, \<^verbatim>\<open>EmplaceBack\<close>, \<^verbatim>\<open>Emplace\<close> and
  \<^verbatim>\<open>Insert\<close> at any position) leaves the capacity 1 if the size was 0, and
  twice the old size otherwise; and when no step throws, \<^verbatim>\<open>PushBack\<close> and
  \<^verbatim>\<open>EmplaceBack\<close> do return.
\<close>

theorem growth_doubles:
  assumes "invariant v" and "Size v = Capacity v"
  shows "(nothing_throws e \<longrightarrow>
            (\<exists>v' e'. PushBack tr x (v, e) = Returned () (v', e')) \<and>
            (\<exists>v' e'. PushBack_move tr x (v, e) = Returned () (v', e')) \<and>
            (\<exists>it v' e'. EmplaceBack tr x (v, e) = Returned it (v', e'))) \<and>
         (\<forall>u v' e'. PushBack tr x (v, e) = Returned u (v', e') \<longrightarrow>
            Capacity v' = (if Size v = 0 then 1 else 2 * Size v)) \<and>
         (\<forall>u v' e'. PushBack_move tr x (v, e) = Returned u (v', e') \<longrightarrow>
            Capacity v' = (if Size v = 0 then 1 else 2 * Size v)) \<and>
         (\<forall>it v' e'. EmplaceBack tr x (v, e) = Returned it (v', e') \<longrightarrow>
            Capacity v' = (if Size v = 0 then 1 else 2 * Size v)) \<and>
         (\<forall>pos it v' e'. Emplace tr pos x (v, e) = Returned it (v', e') \<longrightarrow>
            Capacity v' = (if Size v = 0 then 1 else 2 * Size v)) \<and>
         (\<forall>pos it v' e'. Insert tr pos x (v, e) = Returned it (v', e') \<longrightarrow>
            Capacity v' = (if Size v = 0 then 1 else 2 * Size v))"
proof -
  from assms have full: "size_m v = capacity_m (data_m v)" by (simp add: Size_def Capacity_def)
  note inv = assms(1)
  have quiet: "nothing_throws e \<longrightarrow>
            (\<exists>v' e'. PushBack tr x (v, e) = Returned () (v', e')) \<and>
            (\<exists>v' e'. PushBack_move tr x (v, e) = Returned () (v', e')) \<and>
            (\<exists>it v' e'. EmplaceBack tr x (v, e) = Returned it (v', e'))"
  proof
    assume q: "nothing_throws e"
    from PushBack_with_quiet [OF inv q, of copy_ctor_exn True tr x]
    have 1: "\<exists>v' e'. PushBack tr x (v, e) = Returned () (v', e')"
      by (auto simp: PushBack_def)
    from PushBack_with_quiet [OF inv q, of move_ctor_exn "\<not> nothrow_move_constructible tr" tr x]
    have 2: "\<exists>v' e'. PushBack_move tr x (v, e) = Returned () (v', e')"
      by (auto simp: PushBack_move_def)
    from Emplace_quiet [OF inv _ q, of "size_m v" tr x]
    have 3: "\<exists>it v' e'. EmplaceBack tr x (v, e) = Returned it (v', e')"
      by (simp add: EmplaceBack_def RawMemory_plus_def)
    from 1 2 3 show "(\<exists>v' e'. PushBack tr x (v, e) = Returned () (v', e')) \<and>
            (\<exists>v' e'. PushBack_move tr x (v, e) = Returned () (v', e')) \<and>
            (\<exists>it v' e'. EmplaceBack tr x (v, e) = Returned it (v', e'))" by blast
  qed
  have pb: "\<forall>u v' e'. PushBack tr x (v, e) = Returned u (v', e') \<longrightarrow>
            Capacity v' = (if Size v = 0 then 1 else 2 * Size v)"
    using full by (auto simp: PushBack_def Size_def Capacity_def dest!: PushBack_with_capacity)
  have pm: "\<forall>u v' e'. PushBack_move tr x (v, e) = Returned u (v', e') \<longrightarrow>
            Capacity v' = (if Size v = 0 then 1 else 2 * Size v)"
    using full by (auto simp: PushBack_move_def Size_def Capacity_def dest!: PushBack_with_capacity)
  have em: "\<forall>pos it v' e'. Emplace tr pos x (v, e) = Returned it (v', e') \<longrightarrow>
            Capacity v' = (if Size v = 0 then 1 else 2 * Size v)"
    using full by (auto simp: Size_def Capacity_def dest!: Emplace_capacity)
  have eb: "\<forall>it v' e'. EmplaceBack tr x (v, e) = Returned it (v', e') \<longrightarrow>
            Capacity v' = (if Size v = 0 then 1 else 2 * Size v)"
  proof (intro allI impI)
    fix it v' e' assume "EmplaceBack tr x (v, e) = Returned it (v', e')"
    then have "Emplace tr (RawMemory_plus (data_m v) (size_m v)) x (v, e) = Returned it (v', e')"
      by (simp add: EmplaceBack_def)
    with em show "Capacity v' = (if Size v = 0 then 1 else 2 * Size v)" by blast
  qed
  have ins: "\<forall>pos it v' e'. Insert tr pos x (v, e) = Returned it (v', e') \<longrightarrow>
            Capacity v' = (if Size v = 0 then 1 else 2 * Size v)"
  proof (intro allI impI)
    fix pos it v' e' assume "Insert tr pos x (v, e) = Returned it (v', e')"
    then have "Emplace tr pos x (v, e) = Returned it (v', e')"
      by (simp add: Insert_def)
    with em show "Capacity v' = (if Size v = 0 then 1 else 2 * Size v)" by blast
  qed
  from quiet pb pm eb em ins show ?thesis by blast
qed

theorem growth_doubles_witness:
  "invariant two_ints \<and> Size two_ints = Capacity two_ints \<and>
   PushBack int_traits 3 (two_ints, \<lparr>sched = [], next_addr = 2\<rparr>)
     = Returned ()
         (\<lparr>data_m = \<lparr>buffer_m = Some 2, capacity_m = 4, block = [Obj 1, Obj 2, Obj 3, Raw]\<rparr>,
           size_m = 3\<rparr>, \<lparr>sched = [], next_addr = 3\<rparr>) \<and>
   Capacity \<lparr>data_m = \<lparr>buffer_m = Some 2, capacity_m = 4, block = [Obj 1, Obj 2, Obj (3::int), Raw]\<rparr>,
           size_m = 3\<rparr> = 2 * Size two_ints \<and>
   PushBack int_traits 3 (Vector_default, \<lparr>sched = [], next_addr = 2\<rparr>)
     = Returned ()
         (\<lparr>data_m = \<lparr>buffer_m = Some 2, capacity_m = 1, block = [Obj 3]\<rparr>,
           size_m = 1\<rparr>, \<lparr>sched = [], next_addr = 3\<rparr>) \<and>
   Capacity \<lparr>data_m = \<lparr>buffer_m = Some 2, capacity_m = 1, block = [Obj (3::int)]\<rparr>, size_m = 1\<rparr> = 1"
proof -
  let ?e = "\<lparr>sched = [], next_addr = 2\<rparr>"
  let ?v' = "\<lparr>data_m = \<lparr>buffer_m = Some 2, capacity_m = 4, block = [Obj 1, Obj 2, Obj (3::int), Raw]\<rparr>,
           size_m = 3\<rparr>"
  let ?w' = "\<lparr>data_m = \<lparr>buffer_m = Some 2, capacity_m = 1, block = [Obj (3::int)]\<rparr>, size_m = 1\<rparr>"
  have i: "invariant two_ints" by code_simp
  have f: "Size two_ints = Capacity two_ints" by code_simp
  have r: "PushBack int_traits 3 (two_ints, ?e) = Returned () (?v', \<lparr>sched = [], next_addr = 3\<rparr>)"
    by code_simp
  have i0: "invariant (Vector_default :: int Vector)" by code_simp
  have f0: "Size (Vector_default :: int Vector) = Capacity (Vector_default :: int Vector)" by code_simp
  have s0: "Size (Vector_default :: int Vector) = 0" by code_simp
  have r0: "PushBack int_traits 3 (Vector_default, ?e) = Returned () (?w', \<lparr>sched = [], next_addr = 3\<rparr>)"
    by code_simp
  have s: "Size two_ints \<noteq> 0" by code_simp
  from growth_doubles [OF i f, where e = ?e and tr = int_traits and x = 3] r s have c: "Capacity ?v' = 2 * Size two_ints"
    by auto
  from growth_doubles [OF i0 f0, where e = ?e and tr = int_traits and x = 3] r0 s0 have c0: "Capacity ?w' = 1"
    by auto
  from i f r c r0 c0 show ?thesis by simp
qed

section \<open>Erase\<close>

lemma remove_cells:
  assumes "s \<le> length m" "i < s" "s - 1 \<le> length m'"
    and "\<forall>j<s - 1. m' ! j = (if j < i then m ! j else m ! Suc j)"
  shows "take (s - 1) m' = take i (take s m) @ drop (Suc i) (take s m)"
proof (rule nth_equalityI)
  show "length (take (s - 1) m') = length (take i (take s m) @ drop (Suc i) (take s m))"
    using assms by simp
next
  fix j assume "j < length (take (s - 1) m')"
  then have j: "j < s - 1" using assms by simp
  have "take (s - 1) m' ! j = m' ! j" using j by simp
  also have "\<dots> = (if j < i then m ! j else m ! Suc j)" using assms j by blast
  also have "\<dots> = (take i (take s m) @ drop (Suc i) (take s m)) ! j"
  proof (cases "j < i")
    case True
    then show ?thesis using assms j by (simp add: nth_append)
  next
    case False
    then have "(take i (take s m) @ drop (Suc i) (take s m)) ! j = drop (Suc i) (take s m) ! (j - i)"
      using assms by (simp add: nth_append)
    also have "\<dots> = take s m ! (Suc i + (j - i))" using assms j False by simp
    also have "Suc i + (j - i) = Suc j" using False by simp
    also have "take s m ! Suc j = m ! Suc j" using j by simp
    finally show ?thesis using False by simp
  qed
  finally show "take (s - 1) m' ! j = (take i (take s m) @ drop (Suc i) (take s m)) ! j" .
qed

lemma Erase_steps:
  assumes "Erase tr (buffer_m (data_m v), i) (v, e) = Returned it (v', e')"
  obtains m1 m2 where
    "i < size_m v"
    "move_loop tr (block (data_m v)) (Suc i) (size_m v - Suc i) i e = Returned () (m1, e')"
    "destroy_at m1 (size_m v - 1) = Some m2"
    "v' = (set_block v m2)\<lparr>size_m := size_m v - 1\<rparr>"
    "it = (buffer_m (data_m v), i)"
  using assms
  by (auto simp: Erase_def ptr_diff_def begin_it_def GetAddress_def std_move_def Let_def set_block_def
      split: outcome.splits prod.splits option.splits if_splits)

lemma Erase_cells:
  assumes r: "Erase tr (buffer_m (data_m v), i) (v, e) = Returned it (v', e')"
  shows "i < size_m v" "size_m v' = size_m v - 1" "it = (buffer_m (data_m v'), i)"
    "buffer_m (data_m v') = buffer_m (data_m v)" "capacity_m (data_m v') = capacity_m (data_m v)"
    "length (block (data_m v')) = length (block (data_m v))"
    "size_m v \<le> length (block (data_m v))"
    "\<forall>j<length (block (data_m v)). block (data_m v') ! j =
        (if j < i then block (data_m v) ! j
         else if j < size_m v - 1 then block (data_m v) ! Suc j
         else if j = size_m v - 1 then Raw
         else block (data_m v) ! j)"
proof -
  let ?m = "block (data_m v)" and ?s = "size_m v"
  from r obtain m1 m2 where
    i: "i < ?s"
    and ml: "move_loop tr ?m (Suc i) (?s - Suc i) i e = Returned () (m1, e')"
    and d: "destroy_at m1 (?s - 1) = Some m2"
    and v': "v' = (set_block v m2)\<lparr>size_m := ?s - 1\<rparr>"
    and it: "it = (buffer_m (data_m v), i)"
    by (rule Erase_steps)
  note M = move_loop_Returned [OF ml]
  from d have D: "?s - 1 < length m1" "m2 = m1[?s - 1 := Raw]" by (simp_all add: destroy_at_Some)
  have ic: "i + (?s - Suc i) = ?s - 1" using i by arith
  show "i < ?s" by (rule i)
  show "size_m v' = ?s - 1" using v' by (simp add: set_block_def)
  show "it = (buffer_m (data_m v'), i)" using v' it by (simp add: set_block_def)
  show "buffer_m (data_m v') = buffer_m (data_m v)" using v' by (simp add: set_block_def)
  show "capacity_m (data_m v') = capacity_m (data_m v)" using v' by (simp add: set_block_def)
  show "length (block (data_m v')) = length ?m" using v' D M by (simp add: set_block_def)
  show "?s \<le> length ?m" using D M i by simp
  show "\<forall>j<length ?m. block (data_m v') ! j =
        (if j < i then ?m ! j else if j < ?s - 1 then ?m ! Suc j
         else if j = ?s - 1 then Raw else ?m ! j)"
  proof (intro allI impI)
    fix j assume j: "j < length ?m"
    have b: "block (data_m v') ! j = m2 ! j" using v' by (simp add: set_block_def)
    show "block (data_m v') ! j =
        (if j < i then ?m ! j else if j < ?s - 1 then ?m ! Suc j
         else if j = ?s - 1 then Raw else ?m ! j)"
    proof (cases "j = ?s - 1")
      case True
      then have "\<not> j < i" "\<not> j < ?s - 1" using i by arith+
      then show ?thesis using True b D by simp
    next
      case False
      then have "m2 ! j = m1 ! j" using D by simp
      also have "\<dots> = (if i \<le> j \<and> j < i + (?s - Suc i) then ?m ! Suc j else ?m ! j)"
        using M j False ic by simp
      finally show ?thesis using b False ic by auto
    qed
  qed
qed

lemma Erase_quiet:
  assumes inv: "invariant v" and i: "i < size_m v" and q: "nothing_throws e"
  shows "\<exists>it v' e'. Erase tr (buffer_m (data_m v), i) (v, e) = Returned it (v', e')"
proof -
  let ?m = "block (data_m v)" and ?s = "size_m v"
  note I = invariantD [OF inv]
  have "\<exists>m1 e1. move_loop tr ?m (Suc i) (?s - Suc i) i e = Returned () (m1, e1) \<and> nothing_throws e1"
  proof (rule move_loop_quiet)
    show "i + (?s - Suc i) < length ?m" using I i by simp
    show "\<forall>j. i \<le> j \<and> j \<le> i + (?s - Suc i) \<longrightarrow> is_obj (?m ! j)"
    proof (intro allI impI)
      fix j assume "i \<le> j \<and> j \<le> i + (?s - Suc i)"
      then have "j < ?s" using i by arith
      then show "is_obj (?m ! j)" by (rule I(4))
    qed
    show "nothing_throws e" by (rule q)
  qed
  then obtain m1 e1 where ml: "move_loop tr ?m (Suc i) (?s - Suc i) i e = Returned () (m1, e1)" by blast
  note M = move_loop_Returned [OF ml]
  have "?s - 1 < length ?m" using I i by simp
  moreover from this have "is_obj (m1 ! (?s - 1)) = is_obj (?m ! (?s - 1))" using M by blast
  moreover have "is_obj (?m ! (?s - 1))" using I(4) [of "?s - 1"] i by simp
  ultimately have d: "destroy_at m1 (?s - 1) = Some (m1[?s - 1 := Raw])"
    using M by (simp add: destroy_at_Some)
  have "\<not> ?s < Suc i" "?s \<noteq> 0" using i by simp_all
  with ml d show ?thesis
    by (simp add: Erase_def ptr_diff_def begin_it_def GetAddress_def std_move_def Let_def)
qed

lemma Erase_contents:
  assumes r: "Erase tr (buffer_m (data_m v), i) (v, e) = Returned it (v', e')"
  shows "contents v' = take i (contents v) @ drop (Suc i) (contents v)"
proof -
  note C = Erase_cells [OF r]
  let ?m = "block (data_m v)" and ?m' = "block (data_m v')" and ?s = "size_m v"
  have "\<forall>j<?s - 1. ?m' ! j = (if j < i then ?m ! j else ?m ! Suc j)"
    using C(1,7,8) by auto
  then have "take (?s - 1) ?m' = take i (take ?s ?m) @ drop (Suc i) (take ?s ?m)"
    using C(1,6,7) by (intro remove_cells) simp_all
  then show ?thesis using C(2) by (simp add: contents_def)
qed

lemma Erase_invariant:
  assumes inv: "invariant v" and r: "Erase tr (buffer_m (data_m v), i) (v, e) = Returned it (v', e')"
  shows "invariant v'"
proof (rule invariantI)
  note C = Erase_cells [OF r]
  note I = invariantD [OF inv]
  let ?m = "block (data_m v)" and ?m' = "block (data_m v')" and ?s = "size_m v"
  show "size_m v' \<le> capacity_m (data_m v')" using C I by simp
  show "length ?m' = capacity_m (data_m v')" using C I by simp
  show "(buffer_m (data_m v') = None) = (capacity_m (data_m v') = 0)" using C I by simp
  show "\<And>j. j < size_m v' \<Longrightarrow> is_obj (?m' ! j)"
  proof -
    fix j assume "j < size_m v'"
    then have j: "j < ?s - 1" using C by simp
    then have "?m' ! j = (if j < i then ?m ! j else ?m ! Suc j)" using C(7,8) by auto
    moreover have "is_obj (?m ! j)" "is_obj (?m ! Suc j)" using I(4) j by simp_all
    ultimately show "is_obj (?m' ! j)" by simp
  qed
  show "\<And>j. size_m v' \<le> j \<Longrightarrow> j < capacity_m (data_m v') \<Longrightarrow> ?m' ! j = Raw"
  proof -
    fix j assume "size_m v' \<le> j" "j < capacity_m (data_m v')"
    then have j: "?s - 1 \<le> j" "j < length ?m" using C I by simp_all
    then have "?m' ! j = (if j = ?s - 1 then Raw else ?m ! j)" using C(1,8) by auto
    moreover have "j \<noteq> ?s - 1 \<Longrightarrow> ?m ! j = Raw" using I(5) [of j] j I by simp
    ultimately show "?m' ! j = Raw" by auto
  qed
qed

text \<open>
  C4. For every vector that satisfies the class invariant, of size \<open>s\<close>, and every
  position \<open>begin() + i\<close> with \<open>i < s\<close>: when no step throws, \<^verbatim>\<open>Erase\<close>
  returns; and whenever it returns, the size is \<open>s - 1\<close>, the cells \<open>[0, i)\<close> are as
  before and each former cell \<open>j\<close> of \<open>(i, s)\<close> is now cell \<open>j - 1\<close>; the capacity
  is unchanged.
\<close>

theorem Erase_removes:
  assumes "invariant v" and "i < Size v"
  shows "(nothing_throws e \<longrightarrow>
            (\<exists>it v' e'. Erase tr (RawMemory_plus (data_m v) i) (v, e) = Returned it (v', e'))) \<and>
         (\<forall>it v' e'. Erase tr (RawMemory_plus (data_m v) i) (v, e) = Returned it (v', e') \<longrightarrow>
            Size v' = Size v - 1 \<and>
            contents v' = take i (contents v) @ drop (Suc i) (contents v) \<and>
            Capacity v' = Capacity v)"
proof (intro conjI impI allI)
  from assms have i: "i < size_m v" by (simp add: Size_def)
  {
    assume "nothing_throws e"
    from Erase_quiet [OF assms(1) i this]
    show "\<exists>it v' e'. Erase tr (RawMemory_plus (data_m v) i) (v, e) = Returned it (v', e')"
      by (simp add: RawMemory_plus_def)
  }
  {
    fix it v' e'
    assume "Erase tr (RawMemory_plus (data_m v) i) (v, e) = Returned it (v', e')"
    then have r: "Erase tr (buffer_m (data_m v), i) (v, e) = Returned it (v', e')"
      by (simp add: RawMemory_plus_def)
    from Erase_cells(2) [OF r] show "Size v' = Size v - 1" by (simp add: Size_def)
    from Erase_contents [OF r] show "contents v' = take i (contents v) @ drop (Suc i) (contents v)" .
    from Erase_cells(5) [OF r] show "Capacity v' = Capacity v" by (simp add: Capacity_def)
  }
qed

theorem Erase_removes_witness:
  "invariant three_ints \<and> 0 < Size three_ints \<and>
   Erase int_traits (RawMemory_plus (data_m three_ints) 0) (three_ints, \<lparr>sched = [], next_addr = 2\<rparr>)
     = Returned (Some 1, 0)
         (\<lparr>data_m = \<lparr>buffer_m = Some 1, capacity_m = 4, block = [Obj 42, Obj 2, Raw, Raw]\<rparr>,
           size_m = 2\<rparr>, \<lparr>sched = [], next_addr = 2\<rparr>) \<and>
   contents \<lparr>data_m = \<lparr>buffer_m = Some 1, capacity_m = 4, block = [Obj 42, Obj (2::int), Raw, Raw]\<rparr>,
           size_m = 2\<rparr> = [Obj 42, Obj 2]"
proof -
  let ?e = "\<lparr>sched = [], next_addr = 2\<rparr>"
  let ?v' = "\<lparr>data_m = \<lparr>buffer_m = Some 1, capacity_m = 4, block = [Obj 42, Obj (2::int), Raw, Raw]\<rparr>,
           size_m = 2\<rparr>"
  have i: "invariant three_ints" by code_simp
  have p: "0 < Size three_ints" by code_simp
  have r: "Erase int_traits (RawMemory_plus (data_m three_ints) 0) (three_ints, ?e)
     = Returned (Some 1, 0) (?v', ?e)" by code_simp
  from Erase_removes [OF i p, where e = ?e and tr = int_traits] r
  have "contents ?v' = take 0 (contents three_ints) @ drop (Suc 0) (contents three_ints)"
    by blast
  then have "contents ?v' = [Obj 42, Obj 2]"
    by (simp add: contents_def three_ints_def)
  with i p r show ?thesis by simp
qed

text \<open>
  C10. For every vector that satisfies the class invariant and every position
  \<open>begin() + i\<close> with \<open>i < size\<close>: whenever \<^verbatim>\<open>Erase\<close> returns, the pointer it
  returns is \<open>begin() + i\<close> of the vector after the call, in the same block as before;
  when an element followed the erased one, this is the cell that now holds it, and when
  the last element was erased it is \<open>end()\<close>.
\<close>

theorem Erase_returns_position:
  assumes "invariant v" and "i < Size v"
  shows "\<forall>it v' e'. Erase tr (RawMemory_plus (data_m v) i) (v, e) = Returned it (v', e') \<longrightarrow>
            it = RawMemory_plus (data_m v') i \<and>
            ptr_diff it (begin_it v') = Some i \<and>
            buffer_m (data_m v') = buffer_m (data_m v) \<and>
            (i + 1 < Size v \<longrightarrow> at_index v' i = at_index v (i + 1) \<and> at_index v' i \<noteq> None) \<and>
            (i + 1 = Size v \<longrightarrow> it = end_it v')"
proof (intro conjI impI allI)
  fix it v' e'
  assume "Erase tr (RawMemory_plus (data_m v) i) (v, e) = Returned it (v', e')"
  then have r: "Erase tr (buffer_m (data_m v), i) (v, e) = Returned it (v', e')"
    by (simp add: RawMemory_plus_def)
  note C = Erase_cells [OF r]
  note I = invariantD [OF assms(1)]
  show "it = RawMemory_plus (data_m v') i" using C(3) by (simp add: RawMemory_plus_def)
  show "ptr_diff it (begin_it v') = Some i"
    using C(3) by (simp add: ptr_diff_def begin_it_def GetAddress_def)
  show "buffer_m (data_m v') = buffer_m (data_m v)" by (rule C(4))
  {
    assume "i + 1 < Size v"
    then have n: "Suc i < size_m v" by (simp add: Size_def)
    then have "i < length (block (data_m v))" "Suc i < length (block (data_m v))" using C(7) by simp_all
    moreover have "i < size_m v - 1" using n by arith
    with C(8) \<open>i < length (block (data_m v))\<close> have "block (data_m v') ! i = block (data_m v) ! Suc i"
      by simp
    ultimately show "at_index v' i = at_index v (i + 1)"
      using C(6) by (simp add: at_index_def obj_at_def)
    have "is_obj (block (data_m v) ! Suc i)" using I(4) n by simp
    then show "at_index v' i \<noteq> None"
      using \<open>at_index v' i = at_index v (i + 1)\<close> \<open>Suc i < length (block (data_m v))\<close>
      by (simp add: at_index_def obj_at_None_iff)
  }
  {
    assume "i + 1 = Size v"
    then have "size_m v - 1 = i" by (simp add: Size_def)
    then show "it = end_it v'" using C(2,3) by (simp add: end_it_def GetAddress_def)
  }
qed

theorem Erase_returns_position_witness:
  "invariant three_ints \<and> 1 < Size three_ints \<and>
   Erase int_traits (RawMemory_plus (data_m three_ints) 1) (three_ints, \<lparr>sched = [], next_addr = 2\<rparr>)
     = Returned (Some 1, 1)
         (\<lparr>data_m = \<lparr>buffer_m = Some 1, capacity_m = 4, block = [Obj 1, Obj 2, Raw, Raw]\<rparr>,
           size_m = 2\<rparr>, \<lparr>sched = [], next_addr = 2\<rparr>) \<and>
   at_index \<lparr>data_m = \<lparr>buffer_m = Some 1, capacity_m = 4, block = [Obj 1, Obj (2::int), Raw, Raw]\<rparr>,
           size_m = 2\<rparr> 1 = Some 2 \<and>
   Erase int_traits (RawMemory_plus (data_m three_ints) 2) (three_ints, \<lparr>sched = [], next_addr = 2\<rparr>)
     = Returned (Some 1, 2)
         (\<lparr>data_m = \<lparr>buffer_m = Some 1, capacity_m = 4, block = [Obj 1, Obj 42, Raw, Raw]\<rparr>,
           size_m = 2\<rparr>, \<lparr>sched = [], next_addr = 2\<rparr>) \<and>
   end_it \<lparr>data_m = \<lparr>buffer_m = Some 1, capacity_m = 4, block = [Obj 1, Obj (42::int), Raw, Raw]\<rparr>,
           size_m = 2\<rparr> = (Some 1, 2)"
proof -
  let ?e = "\<lparr>sched = [], next_addr = 2\<rparr>"
  let ?v' = "\<lparr>data_m = \<lparr>buffer_m = Some 1, capacity_m = 4, block = [Obj 1, Obj (2::int), Raw, Raw]\<rparr>,
           size_m = 2\<rparr>"
  let ?w' = "\<lparr>data_m = \<lparr>buffer_m = Some 1, capacity_m = 4, block = [Obj 1, Obj (42::int), Raw, Raw]\<rparr>,
           size_m = 2\<rparr>"
  have i: "invariant three_ints" by code_simp
  have p: "1 < Size three_ints" by code_simp
  have p2: "2 < Size three_ints" by code_simp
  have s: "Size three_ints = 3" by code_simp
  have r: "Erase int_traits (RawMemory_plus (data_m three_ints) 1) (three_ints, ?e)
     = Returned (Some 1, 1) (?v', ?e)" by code_simp
  have r2: "Erase int_traits (RawMemory_plus (data_m three_ints) 2) (three_ints, ?e)
     = Returned (Some 1, 2) (?w', ?e)" by code_simp
  have a: "at_index three_ints (1 + 1) = Some 2" by code_simp
  from Erase_returns_position [OF i p, where e = ?e and tr = int_traits] r s
  have "at_index ?v' 1 = at_index three_ints (1 + 1)" by auto
  with a have 1: "at_index ?v' 1 = Some 2" by (simp only:)
  from Erase_returns_position [OF i p2, where e = ?e and tr = int_traits] r2 s
  have 2: "(Some 1, 2) = end_it ?w'" by auto
  from i p r 1 r2 2 show ?thesis by simp
qed

section \<open>Copy construction\<close>

lemma raises_next_addr: "raises e = (t, e') \<Longrightarrow> next_addr e' = next_addr e"
  by (cases "sched e") (auto simp: raises_def)

lemma construct_at_next_addr:
  "construct_at ex b m i x e = Returned u (m', e') \<Longrightarrow> next_addr e' = next_addr e"
  by (auto simp: construct_at_def split: if_splits prod.splits bool.splits dest: raises_next_addr)

lemma assign_at_next_addr:
  "assign_at ex b m i x e = Returned u (m', e') \<Longrightarrow> next_addr e' = next_addr e"
  by (auto simp: assign_at_def split: option.splits if_splits prod.splits bool.splits
      dest: raises_next_addr)

lemma copy_loop_Returned:
  "copy_loop src first count dst d_first e = Returned u (dst', e') \<Longrightarrow>
     length dst' = length dst \<and> next_addr e' = next_addr e \<and>
     (count = 0 \<or> (d_first + count \<le> length dst \<and> first + count \<le> length src)) \<and>
     (\<forall>i<length dst. dst' ! i =
        (if d_first \<le> i \<and> i < d_first + count then src ! (first + (i - d_first)) else dst ! i)) \<and>
     (\<forall>k<count. is_obj (src ! (first + k)))"
proof (induction count arbitrary: first dst d_first e)
  case 0
  then show ?case by auto
next
  case (Suc count)
  from Suc.prems obtain x dst1 e1 u1 where x: "obj_at src first = Some x"
    and c: "assign_at copy_assign_exn True dst d_first x e = Returned u1 (dst1, e1)"
    and r: "copy_loop src (Suc first) count dst1 (Suc d_first) e1 = Returned u (dst', e')"
    by (auto split: option.splits outcome.splits prod.splits)
  from x have sx: "first < length src" "src ! first = Obj x"
    by (simp_all add: obj_at_Some_iff)
  from assign_at_Returned [OF c] have d1: "d_first < length dst" "dst1 = dst[d_first := Obj x]"
    by simp_all
  note ih = Suc.IH [OF r]
  have len: "length dst' = length dst" using ih d1 by simp
  have na: "next_addr e' = next_addr e" using ih assign_at_next_addr [OF c] by simp
  have bounds: "d_first + Suc count \<le> length dst \<and> first + Suc count \<le> length src"
    using ih d1 sx by auto
  have cells: "\<forall>i<length dst. dst' ! i =
        (if d_first \<le> i \<and> i < d_first + Suc count then src ! (first + (i - d_first)) else dst ! i)"
  proof (intro allI impI)
    fix i assume i: "i < length dst"
    show "dst' ! i = (if d_first \<le> i \<and> i < d_first + Suc count then src ! (first + (i - d_first)) else dst ! i)"
    proof (cases "i = d_first")
      case True
      then show ?thesis using ih d1 sx i by simp
    next
      case False
      then have "dst' ! i = (if Suc d_first \<le> i \<and> i < Suc d_first + count
          then src ! (Suc first + (i - Suc d_first)) else dst ! i)"
        using ih d1 i by simp
      moreover have "Suc d_first \<le> i \<Longrightarrow> Suc first + (i - Suc d_first) = first + (i - d_first)"
        by arith
      ultimately show ?thesis using False by auto
    qed
  qed
  have objs: "\<forall>k<Suc count. is_obj (src ! (first + k))"
  proof (intro allI impI)
    fix k assume "k < Suc count"
    then show "is_obj (src ! (first + k))"
      using ih sx by (cases k) auto
  qed
  from len na bounds cells objs show ?case by simp
qed

lemma copy_loop_quiet:
  "first + count \<le> length src \<Longrightarrow> (\<forall>k<count. is_obj (src ! (first + k))) \<Longrightarrow>
   d_first + count \<le> length dst \<Longrightarrow> (\<forall>k<count. is_obj (dst ! (d_first + k))) \<Longrightarrow>
   nothing_throws e \<Longrightarrow>
   \<exists>dst' e'. copy_loop src first count dst d_first e = Returned () (dst', e') \<and> nothing_throws e'"
proof (induction count arbitrary: first dst d_first e)
  case 0
  then show ?case by simp
next
  case (Suc count)
  from Suc.prems have "first < length src" "is_obj (src ! first)" by auto
  then obtain x where x: "obj_at src first = Some x"
    by (cases "obj_at src first") (auto simp: obj_at_None_iff)
  from Suc.prems have "d_first < length dst" "is_obj (dst ! d_first)" by auto
  from assign_at_quiet [OF this Suc.prems(5), of copy_assign_exn True x]
  obtain e1 where c: "assign_at copy_assign_exn True dst d_first x e = Returned () (dst[d_first := Obj x], e1)"
    and q: "nothing_throws e1" by blast
  have "\<exists>dst' e'. copy_loop src (Suc first) count (dst[d_first := Obj x]) (Suc d_first) e1
      = Returned () (dst', e') \<and> nothing_throws e'"
  proof (rule Suc.IH)
    show "Suc first + count \<le> length src" using Suc.prems by simp
    show "\<forall>k<count. is_obj (src ! (Suc first + k))" using Suc.prems(2) by auto
    show "Suc d_first + count \<le> length (dst[d_first := Obj x])" using Suc.prems by simp
    show "\<forall>k<count. is_obj (dst[d_first := Obj x] ! (Suc d_first + k))"
      using Suc.prems(4) by (auto simp: nth_list_update)
    show "nothing_throws e1" by (rule q)
  qed
  with x c show ?case by simp
qed

lemma uninit_copy_loop_next_addr:
  "uninit_copy_loop src first count dst d_first current e = Returned u (dst', e') \<Longrightarrow>
     next_addr e' = next_addr e"
proof (induction count arbitrary: first dst current e)
  case 0
  then show ?case by simp
next
  case (Suc count)
  from Suc.prems obtain x dst1 e1 u1 where
    c: "construct_at copy_ctor_exn True dst current x e = Returned u1 (dst1, e1)"
    and r: "uninit_copy_loop src (Suc first) count dst1 d_first (Suc current) e1 = Returned u (dst', e')"
    by (auto split: option.splits outcome.splits prod.splits)
  from Suc.IH [OF r] construct_at_next_addr [OF c] show ?case by simp
qed

lemma Vector_copy_Returned:
  assumes "Vector_copy other e = Returned c e'"
  shows "size_m c = size_m other" "capacity_m (data_m c) = size_m other"
    "length (block (data_m c)) = size_m other"
    "(buffer_m (data_m c) = None) = (size_m other = 0)"
    "size_m other = 0 \<or> size_m other \<le> length (block (data_m other))"
    "\<forall>i<size_m other. block (data_m c) ! i = block (data_m other) ! i \<and> is_obj (block (data_m other) ! i)"
proof -
  from assms obtain d e1 m where
    a: "RawMemory_ctor (size_m other) e = Returned d e1"
    and l: "uninit_copy_loop (block (data_m other)) 0 (size_m other) (block d) 0 0 e1 = Returned () (m, e')"
    and c: "c = \<lparr>data_m = d\<lparr>block := m\<rparr>, size_m = size_m other\<rparr>"
    by (auto simp: Vector_copy_def uninitialized_copy_n_def split: outcome.splits prod.splits)
  note A = RawMemory_ctor_Returned [OF a]
  note L = uninit_copy_loop_Returned [OF l]
  show "size_m c = size_m other" using c by simp
  show "capacity_m (data_m c) = size_m other" using c A by simp
  show "length (block (data_m c)) = size_m other" using c A L by simp
  show "(buffer_m (data_m c) = None) = (size_m other = 0)" using c A by simp
  show "size_m other = 0 \<or> size_m other \<le> length (block (data_m other))" using L by auto
  show "\<forall>i<size_m other. block (data_m c) ! i = block (data_m other) ! i \<and> is_obj (block (data_m other) ! i)"
    using c A L by auto
qed

lemma Vector_copy_quiet:
  fixes other :: "'a Vector"
  assumes inv: "invariant other" and q: "nothing_throws e"
  shows "\<exists>c e'. Vector_copy other e = Returned c e' \<and> nothing_throws e'"
proof -
  note I = invariantD [OF inv]
  from RawMemory_ctor_quiet [OF q] obtain d :: "'a RawMemory" and e1 where
    a: "RawMemory_ctor (size_m other) e = Returned d e1" and q1: "nothing_throws e1" by blast
  note A = RawMemory_ctor_Returned [OF a]
  have "\<exists>m e2. uninit_copy_loop (block (data_m other)) 0 (size_m other) (block d) 0 0 e1
      = Returned () (m, e2) \<and> nothing_throws e2"
  proof (rule uninit_copy_loop_quiet)
    show "0 + size_m other \<le> length (block (data_m other))" using I by simp
    show "\<forall>k<size_m other. is_obj (block (data_m other) ! (0 + k))" using I(4) by simp
    show "0 + size_m other \<le> length (block d)" using A by simp
    show "nothing_throws e1" by (rule q1)
  qed
  then obtain m e2 where "uninit_copy_loop (block (data_m other)) 0 (size_m other) (block d) 0 0 e1
      = Returned () (m, e2)" "nothing_throws e2" by blast
  with a show ?thesis by (simp add: Vector_copy_def uninitialized_copy_n_def)
qed

lemma take_cells_eq:
  assumes "n = 0 \<or> (n \<le> length a \<and> n \<le> length b)" "\<forall>i<n. a ! i = b ! i"
  shows "take n a = take n b"
proof (cases "n = 0")
  case True
  then show ?thesis by simp
next
  case False
  with assms have "n \<le> length a" "n \<le> length b" by simp_all
  then show ?thesis using assms(2) by (intro nth_take_lemma) simp_all
qed

lemma Vector_copy_invariant:
  assumes "Vector_copy other e = Returned c e'"
  shows "invariant c"
proof (rule invariantI)
  note C = Vector_copy_Returned [OF assms]
  show "size_m c \<le> capacity_m (data_m c)" using C by simp
  show "length (block (data_m c)) = capacity_m (data_m c)" using C by simp
  show "(buffer_m (data_m c) = None) = (capacity_m (data_m c) = 0)" using C by simp
  show "\<And>i. i < size_m c \<Longrightarrow> is_obj (block (data_m c) ! i)" using C by simp
  show "\<And>i. size_m c \<le> i \<Longrightarrow> i < capacity_m (data_m c) \<Longrightarrow> block (data_m c) ! i = Raw"
    using C by simp
qed

section \<open>Copy assignment\<close>

lemma assign_copy_from_realloc:
  assumes r: "assign_copy_from rhs (v, e) = Returned u (v', e')"
    and big: "size_m rhs > capacity_m (data_m v)"
  shows "size_m v' = size_m rhs" "contents v' = contents rhs"
proof -
  from r big obtain c where
    c: "Vector_copy rhs e = Returned c e'"
    and v': "v' = fst (swap_objects (v, c))"
    by (auto simp: assign_copy_from_def split: outcome.splits prod.splits option.splits)
  note C = Vector_copy_Returned [OF c]
  have b: "block (data_m v') = block (data_m c)" "size_m v' = size_m c"
    using v' by (simp_all add: swap_objects_def RawMemory_Swap_def)
  show "size_m v' = size_m rhs" using b C by simp
  have "take (size_m rhs) (block (data_m c)) = take (size_m rhs) (block (data_m rhs))"
    using C by (intro take_cells_eq) auto
  then show "contents v' = contents rhs" using b C by (simp add: contents_def)
qed

lemma assign_copy_from_cells:
  assumes r: "assign_copy_from rhs (v, e) = Returned u (v', e')"
    and fits: "size_m rhs \<le> capacity_m (data_m v)"
  shows "size_m v' = size_m rhs"
    "capacity_m (data_m v') = capacity_m (data_m v)" "buffer_m (data_m v') = buffer_m (data_m v)"
    "next_addr e' = next_addr e"
    "length (block (data_m v')) = length (block (data_m v))"
    "size_m rhs = 0 \<or> (size_m rhs \<le> length (block (data_m v)) \<and> size_m rhs \<le> length (block (data_m rhs)))"
    "\<forall>i<length (block (data_m v)). block (data_m v') ! i =
        (if i < size_m rhs then block (data_m rhs) ! i
         else if i < size_m v then Raw else block (data_m v) ! i)"
    "\<forall>i<size_m rhs. is_obj (block (data_m rhs) ! i)"
proof -
  let ?m = "block (data_m v)" and ?r = "block (data_m rhs)"
  let ?s = "size_m v" and ?n = "size_m rhs"
  from r fits obtain m1 where
    m1: "(if ?s > ?n then destroy_n ?m ?n (?s - ?n) else Some ?m) = Some m1"
    by (auto simp: assign_copy_from_def split: option.splits)
  have len1: "length m1 = length ?m"
    using m1 by (auto split: if_splits dest: destroy_n_Some)
  have c1: "\<forall>i<length ?m. m1 ! i = (if ?n \<le> i \<and> i < ?s then Raw else ?m ! i)"
    using m1 by (auto split: if_splits dest!: destroy_n_Some)
  have main: "size_m v' = ?n \<and> capacity_m (data_m v') = capacity_m (data_m v) \<and>
      buffer_m (data_m v') = buffer_m (data_m v) \<and> next_addr e' = next_addr e \<and>
      length (block (data_m v')) = length ?m \<and>
      (?n = 0 \<or> (?n \<le> length ?m \<and> ?n \<le> length ?r)) \<and>
      (\<forall>i<length ?m. block (data_m v') ! i = (if i < ?n then ?r ! i else m1 ! i)) \<and>
      (\<forall>i<?n. is_obj (?r ! i))"
  proof (cases "?n = 0")
    case True
    with r fits m1 len1 show ?thesis
      by (auto simp: assign_copy_from_def set_block_def split: option.splits if_splits)
  next
    case n0: False
    show ?thesis
    proof (cases "?s \<ge> ?n")
      case True
      with r fits m1 n0 obtain m3 where
        c: "copy_loop ?r 0 ?n m1 0 e = Returned () (m3, e')"
        and v': "v' = (set_block v m3)\<lparr>size_m := ?n\<rparr>"
        by (auto simp: assign_copy_from_def std_copy_def split: option.splits outcome.splits prod.splits if_splits)
      note L = copy_loop_Returned [OF c]
      have "\<forall>i<length ?m. m3 ! i = (if i < ?n then ?r ! i else m1 ! i)" using L len1 by auto
      moreover have "\<forall>i<?n. is_obj (?r ! i)" using L by auto
      ultimately show ?thesis using v' L n0 len1 by (simp add: set_block_def)
    next
      case False
      with r fits m1 n0 obtain m2 e2 m3 where
        c: "copy_loop ?r 0 ?s m1 0 e = Returned () (m2, e2)"
        and uc: "uninit_copy_loop ?r ?s (?n - ?s) m2 ?s ?s e2 = Returned () (m3, e')"
        and v': "v' = (set_block v m3)\<lparr>size_m := ?n\<rparr>"
        by (auto simp: assign_copy_from_def std_copy_def uninitialized_copy_def
            split: option.splits outcome.splits prod.splits if_splits)
      note L = copy_loop_Returned [OF c]
      note U = uninit_copy_loop_Returned [OF uc]
      note N = uninit_copy_loop_next_addr [OF uc]
      have pos: "?n - ?s \<noteq> 0" using False by simp
      have bnd: "?n \<le> length m3" "?n \<le> length ?r" using U pos False by auto
      have cells: "\<forall>i<length ?m. m3 ! i = (if i < ?n then ?r ! i else m1 ! i)"
      proof (intro allI impI)
        fix i assume "i < length ?m"
        then have il: "i < length m2" using L len1 by simp
        show "m3 ! i = (if i < ?n then ?r ! i else m1 ! i)"
        proof (cases "i < ?s")
          case True
          then have "m3 ! i = m2 ! i" using U il by simp
          also have "\<dots> = ?r ! i" using L il True len1 by simp
          finally show ?thesis using True False by simp
        next
          case F2: False
          show ?thesis
          proof (cases "i < ?n")
            case True
            then have "m3 ! i = ?r ! (?s + (i - ?s))" using U il F2 by simp
            then show ?thesis using F2 True by simp
          next
            case F3: False
            then have nb: "\<not> (?s \<le> i \<and> i < ?s + (?n - ?s))" by arith
            have "m3 ! i = (if ?s \<le> i \<and> i < ?s + (?n - ?s) then ?r ! (?s + (i - ?s)) else m2 ! i)"
              using U il by blast
            with nb have "m3 ! i = m2 ! i" by (simp only: if_False)
            also have "\<dots> = m1 ! i" using L il F2 len1 by simp
            finally show ?thesis using F3 by simp
          qed
        qed
      qed
      have objs: "\<forall>i<?n. is_obj (?r ! i)"
      proof (intro allI impI)
        fix i assume i: "i < ?n"
        show "is_obj (?r ! i)"
        proof (cases "i < ?s")
          case True
          then show ?thesis using L by auto
        next
          case F2: False
          then have "i - ?s < ?n - ?s" using i by arith
          then have "is_obj (?r ! (?s + (i - ?s)))" using U by blast
          then show ?thesis using F2 by simp
        qed
      qed
      from cells objs show ?thesis using v' L U N bnd len1 by (simp add: set_block_def)
    qed
  qed
  from main show "size_m v' = ?n" "capacity_m (data_m v') = capacity_m (data_m v)"
    "buffer_m (data_m v') = buffer_m (data_m v)" "next_addr e' = next_addr e"
    "length (block (data_m v')) = length ?m"
    "?n = 0 \<or> (?n \<le> length ?m \<and> ?n \<le> length ?r)" "\<forall>i<?n. is_obj (?r ! i)" by simp_all
  show "\<forall>i<length ?m. block (data_m v') ! i =
        (if i < ?n then ?r ! i else if i < ?s then Raw else ?m ! i)"
    using main c1 by auto
qed

lemma assign_copy_from_in_place:
  assumes r: "assign_copy_from rhs (v, e) = Returned u (v', e')"
    and fits: "size_m rhs \<le> capacity_m (data_m v)"
  shows "size_m v' = size_m rhs" "contents v' = contents rhs"
    "capacity_m (data_m v') = capacity_m (data_m v)" "buffer_m (data_m v') = buffer_m (data_m v)"
    "next_addr e' = next_addr e"
proof -
  note C = assign_copy_from_cells [OF r fits]
  show "size_m v' = size_m rhs" "capacity_m (data_m v') = capacity_m (data_m v)"
    "buffer_m (data_m v') = buffer_m (data_m v)" "next_addr e' = next_addr e"
    by (rule C)+
  have "take (size_m rhs) (block (data_m v')) = take (size_m rhs) (block (data_m rhs))"
    using C(5,6,7) by (intro take_cells_eq) auto
  then show "contents v' = contents rhs" using C(1) by (simp add: contents_def)
qed

lemma assign_copy_from_invariant:
  assumes inv: "invariant v" and r: "assign_copy_from rhs (v, e) = Returned u (v', e')"
  shows "invariant v'"
proof (cases "size_m rhs > capacity_m (data_m v)")
  case True
  with r obtain c where
    c: "Vector_copy rhs e = Returned c e'" and v': "v' = fst (swap_objects (v, c))"
    by (auto simp: assign_copy_from_def split: outcome.splits prod.splits option.splits)
  from v' have "v' = c" by (simp add: swap_objects_def RawMemory_Swap_def)
  with Vector_copy_invariant [OF c] show ?thesis by simp
next
  case False
  then have fits: "size_m rhs \<le> capacity_m (data_m v)" by simp
  note C = assign_copy_from_cells [OF r fits]
  note I = invariantD [OF inv]
  show ?thesis
  proof (rule invariantI)
    show "size_m v' \<le> capacity_m (data_m v')" using C fits by simp
    show "length (block (data_m v')) = capacity_m (data_m v')" using C I by simp
    show "(buffer_m (data_m v') = None) = (capacity_m (data_m v') = 0)" using C I by simp
    show "\<And>i. i < size_m v' \<Longrightarrow> is_obj (block (data_m v') ! i)"
    proof -
      fix i assume "i < size_m v'"
      then have i: "i < size_m rhs" using C by simp
      then have "i < length (block (data_m v))" using fits I by simp
      then have "block (data_m v') ! i = block (data_m rhs) ! i" using C(7) i by simp
      then show "is_obj (block (data_m v') ! i)" using C(8) i by simp
    qed
    show "\<And>i. size_m v' \<le> i \<Longrightarrow> i < capacity_m (data_m v') \<Longrightarrow> block (data_m v') ! i = Raw"
    proof -
      fix i assume "size_m v' \<le> i" "i < capacity_m (data_m v')"
      then have i: "size_m rhs \<le> i" "i < capacity_m (data_m v)" using C by simp_all
      then have "block (data_m v') ! i = (if i < size_m v then Raw else block (data_m v) ! i)"
        using C(7) I by simp
      then show "block (data_m v') ! i = Raw" using I(5) [of i] i by simp
    qed
  qed
qed

lemma assign_copy_from_quiet:
  fixes v :: "'a Vector"
  assumes iv: "invariant v" and ir: "invariant rhs" and q: "nothing_throws e"
  shows "\<exists>v' e'. assign_copy_from rhs (v, e) = Returned () (v', e')"
proof (cases "size_m rhs > capacity_m (data_m v)")
  case True
  note I = invariantD [OF iv]
  from Vector_copy_quiet [OF ir q] obtain c e1 where c: "Vector_copy rhs e = Returned c e1" by blast
  have "\<exists>m. destroy_n (block (data_m v)) 0 (size_m v) = Some m"
    using I by (intro destroy_n_ok) auto
  then have "Vector_dtor (snd (swap_objects (v, c))) \<noteq> None"
    by (auto simp: Vector_dtor_def swap_objects_def RawMemory_Swap_def)
  with True c show ?thesis
    by (auto simp: assign_copy_from_def split: prod.splits)
next
  case fits: False
  let ?m = "block (data_m v)" and ?r = "block (data_m rhs)"
  let ?s = "size_m v" and ?n = "size_m rhs"
  note I = invariantD [OF iv]
  note J = invariantD [OF ir]
  have "\<exists>m1. (if ?s > ?n then destroy_n ?m ?n (?s - ?n) else Some ?m) = Some m1"
  proof (cases "?s > ?n")
    case True
    have "\<exists>m'. destroy_n ?m ?n (?s - ?n) = Some m'"
      using I True by (intro destroy_n_ok) auto
    with True show ?thesis by simp
  next
    case False
    then show ?thesis by simp
  qed
  then obtain m1 where m1: "(if ?s > ?n then destroy_n ?m ?n (?s - ?n) else Some ?m) = Some m1" by blast
  have len1: "length m1 = length ?m"
    using m1 by (auto split: if_splits dest: destroy_n_Some)
  have keep: "\<forall>i<length ?m. i < ?n \<longrightarrow> m1 ! i = ?m ! i"
    using m1 by (auto split: if_splits dest!: destroy_n_Some)
  show ?thesis
  proof (cases "?n = 0")
    case True
    with fits m1 show ?thesis by (simp add: assign_copy_from_def)
  next
    case n0: False
    show ?thesis
    proof (cases "?s \<ge> ?n")
      case True
      have "\<exists>m3 e3. copy_loop ?r 0 ?n m1 0 e = Returned () (m3, e3) \<and> nothing_throws e3"
      proof (rule copy_loop_quiet)
        show "0 + ?n \<le> length ?r" using J by simp
        show "\<forall>k<?n. is_obj (?r ! (0 + k))" using J(4) by simp
        show "0 + ?n \<le> length m1" using len1 I True by simp
        show "\<forall>k<?n. is_obj (m1 ! (0 + k))"
        proof (intro allI impI)
          fix k assume k: "k < ?n"
          then have "k < length ?m" "k < ?s" using I True by simp_all
          then show "is_obj (m1 ! (0 + k))" using keep k I(4) [of k] by simp
        qed
        show "nothing_throws e" by (rule q)
      qed
      then obtain m3 e3 where "copy_loop ?r 0 ?n m1 0 e = Returned () (m3, e3)" by blast
      with fits m1 n0 True show ?thesis
        by (simp add: assign_copy_from_def std_copy_def)
    next
      case False
      then have m1eq: "m1 = ?m" using m1 by simp
      have "\<exists>m2 e2. copy_loop ?r 0 ?s m1 0 e = Returned () (m2, e2) \<and> nothing_throws e2"
      proof (rule copy_loop_quiet)
        show "0 + ?s \<le> length ?r" using J False by simp
        show "\<forall>k<?s. is_obj (?r ! (0 + k))" using J(4) False by simp
        show "0 + ?s \<le> length m1" using len1 I by simp
        show "\<forall>k<?s. is_obj (m1 ! (0 + k))" using m1eq I(4) by simp
        show "nothing_throws e" by (rule q)
      qed
      then obtain m2 e2 where c: "copy_loop ?r 0 ?s m1 0 e = Returned () (m2, e2)"
        and q2: "nothing_throws e2" by blast
      note L = copy_loop_Returned [OF c]
      have "\<exists>m3 e3. uninit_copy_loop ?r ?s (?n - ?s) m2 ?s ?s e2 = Returned () (m3, e3) \<and> nothing_throws e3"
      proof (rule uninit_copy_loop_quiet)
        show "?s + (?n - ?s) \<le> length ?r" using J False by simp
        show "\<forall>k<?n - ?s. is_obj (?r ! (?s + k))" using J(4) by auto
        show "?s + (?n - ?s) \<le> length m2" using L len1 I fits False by simp
        show "nothing_throws e2" by (rule q2)
      qed
      then obtain m3 e3 where "uninit_copy_loop ?r ?s (?n - ?s) m2 ?s ?s e2 = Returned () (m3, e3)"
        by blast
      with fits m1 n0 False c show ?thesis
        by (simp add: assign_copy_from_def std_copy_def uninitialized_copy_def)
    qed
  qed
qed

text \<open>
  C5. For two vectors \<open>a\<close> and \<open>b\<close> of a store, both satisfying the class invariant,
  the same object or not: when no step throws, the copy assignment \<open>a = b\<close> returns; and
  whenever it returns, \<open>a\<close> has the size of \<open>b\<close> and, cell for cell, the elements of
  \<open>b\<close> before the call; every other object of the store, \<open>b\<close> among them, is as
  before; when the size of \<open>b\<close> is at most the capacity of \<open>a\<close> before the call, the
  capacity of \<open>a\<close> and the address of its block are unchanged and nothing was allocated;
  and when \<open>a\<close> and \<open>b\<close> are the same object, the store and the environment are
  unchanged.
\<close>

theorem copy_assignment:
  assumes "a < length st" and "b < length st" and "invariant (st ! a)" and "invariant (st ! b)"
  shows "(nothing_throws e \<longrightarrow> (\<exists>st' e'. assign_copy a b (st, e) = Returned () (st', e'))) \<and>
         (\<forall>u st' e'. assign_copy a b (st, e) = Returned u (st', e') \<longrightarrow>
            length st' = length st \<and>
            Size (st' ! a) = Size (st ! b) \<and>
            contents (st' ! a) = contents (st ! b) \<and>
            (\<forall>c<length st. c \<noteq> a \<longrightarrow> st' ! c = st ! c) \<and>
            (Size (st ! b) \<le> Capacity (st ! a) \<longrightarrow>
               Capacity (st' ! a) = Capacity (st ! a) \<and>
               buffer_m (data_m (st' ! a)) = buffer_m (data_m (st ! a)) \<and>
               next_addr e' = next_addr e) \<and>
            (a = b \<longrightarrow> st' = st \<and> e' = e))"
proof (cases "a = b")
  case True
  with assms show ?thesis by (simp add: assign_copy_def)
next
  case False
  have quiet: "nothing_throws e \<longrightarrow> (\<exists>st' e'. assign_copy a b (st, e) = Returned () (st', e'))"
  proof
    assume "nothing_throws e"
    from assign_copy_from_quiet [OF assms(3) assms(4) this] obtain v' e' where
      "assign_copy_from (st ! b) (st ! a, e) = Returned () (v', e')" by blast
    with assms False show "\<exists>st' e'. assign_copy a b (st, e) = Returned () (st', e')"
      by (simp add: assign_copy_def)
  qed
  have ret: "\<forall>u st' e'. assign_copy a b (st, e) = Returned u (st', e') \<longrightarrow>
            length st' = length st \<and>
            Size (st' ! a) = Size (st ! b) \<and>
            contents (st' ! a) = contents (st ! b) \<and>
            (\<forall>c<length st. c \<noteq> a \<longrightarrow> st' ! c = st ! c) \<and>
            (Size (st ! b) \<le> Capacity (st ! a) \<longrightarrow>
               Capacity (st' ! a) = Capacity (st ! a) \<and>
               buffer_m (data_m (st' ! a)) = buffer_m (data_m (st ! a)) \<and>
               next_addr e' = next_addr e) \<and>
            (a = b \<longrightarrow> st' = st \<and> e' = e)"
  proof (intro allI impI)
    fix u st' e'
    assume "assign_copy a b (st, e) = Returned u (st', e')"
    with assms False obtain u' v' where
      r: "assign_copy_from (st ! b) (st ! a, e) = Returned u' (v', e')" and st': "st' = st[a := v']"
      by (auto simp: assign_copy_def split: outcome.splits prod.splits)
    have sz: "size_m v' = size_m (st ! b)" and ct: "contents v' = contents (st ! b)"
      using assign_copy_from_realloc [OF r] assign_copy_from_in_place(1,2) [OF r]
      by (cases "size_m (st ! b) > capacity_m (data_m (st ! a))"; simp)+
    have inplace: "Size (st ! b) \<le> Capacity (st ! a) \<longrightarrow>
               Capacity v' = Capacity (st ! a) \<and>
               buffer_m (data_m v') = buffer_m (data_m (st ! a)) \<and>
               next_addr e' = next_addr e"
      using assign_copy_from_in_place(3,4,5) [OF r] by (simp add: Size_def Capacity_def)
    show "length st' = length st \<and>
            Size (st' ! a) = Size (st ! b) \<and>
            contents (st' ! a) = contents (st ! b) \<and>
            (\<forall>c<length st. c \<noteq> a \<longrightarrow> st' ! c = st ! c) \<and>
            (Size (st ! b) \<le> Capacity (st ! a) \<longrightarrow>
               Capacity (st' ! a) = Capacity (st ! a) \<and>
               buffer_m (data_m (st' ! a)) = buffer_m (data_m (st ! a)) \<and>
               next_addr e' = next_addr e) \<and>
            (a = b \<longrightarrow> st' = st \<and> e' = e)"
      using st' sz ct inplace assms(1) False by (simp add: Size_def)
  qed
  from quiet ret show ?thesis by blast
qed

theorem copy_assignment_witness:
  "0 < length [three_ints, two_ints] \<and> 1 < length [three_ints, two_ints] \<and>
   invariant ([three_ints, two_ints] ! 0) \<and> invariant ([three_ints, two_ints] ! 1) \<and>
   assign_copy 0 1 ([three_ints, two_ints], \<lparr>sched = [], next_addr = 3\<rparr>)
     = Returned ()
        ([\<lparr>data_m = \<lparr>buffer_m = Some 1, capacity_m = 4, block = [Obj 1, Obj 2, Raw, Raw]\<rparr>,
            size_m = 2\<rparr>, two_ints], \<lparr>sched = [], next_addr = 3\<rparr>) \<and>
   contents \<lparr>data_m = \<lparr>buffer_m = Some 1, capacity_m = 4, block = [Obj 1, Obj 2, Raw, Raw]\<rparr>,
            size_m = 2\<rparr> = contents two_ints \<and>
   assign_copy 0 0 ([three_ints, two_ints], \<lparr>sched = [True], next_addr = 3\<rparr>)
     = Returned () ([three_ints, two_ints], \<lparr>sched = [True], next_addr = 3\<rparr>)"
proof -
  let ?st = "[three_ints, two_ints]"
  let ?e = "\<lparr>sched = [], next_addr = 3\<rparr>"
  let ?f = "\<lparr>sched = [True], next_addr = 3\<rparr>"
  let ?a' = "\<lparr>data_m = \<lparr>buffer_m = Some 1, capacity_m = 4, block = [Obj 1, Obj (2::int), Raw, Raw]\<rparr>,
            size_m = 2\<rparr>"
  have l0: "0 < length ?st" and l1: "1 < length ?st" by simp_all
  have i0: "invariant (?st ! 0)" by code_simp
  have i1: "invariant (?st ! 1)" by code_simp
  have r: "assign_copy 0 1 (?st, ?e) = Returned () ([?a', two_ints], ?e)" by code_simp
  have r0: "assign_copy 0 0 (?st, ?f) = Returned () (?st, ?f)" by code_simp
  from copy_assignment [OF l0 l1 i0 i1, where e = ?e] r
  have "contents ([?a', two_ints] ! 0) = contents (?st ! 1)" by blast
  then have c: "contents ?a' = contents two_ints" by simp
  from copy_assignment [OF l0 l0 i0 i0, where e = ?f] r0 have "?st = ?st" by blast
  from l0 l1 i0 i1 r c r0 show ?thesis by simp
qed

section \<open>PushBack and exceptions\<close>

lemma PushBack_with_bad_alloc:
  assumes "PushBack_with ex b tr x (v, e) = Thrown bad_alloc (v', e')" "ex \<noteq> bad_alloc"
  shows "v' = v"
  using assms
  by (auto simp: PushBack_with_def Let_def RawMemory_Swap_def
      split: outcome.splits prod.splits option.splits if_splits
      dest: relocate_n_exn construct_at_Thrown RawMemory_ctor_Thrown)

lemma relocate_n_copy_Thrown:
  assumes "relocate_n tr src first count dst d_first e = Thrown ex ((src', dst'), e')"
    "\<not> nothrow_move_constructible tr" "copy_constructible tr"
  shows "src' = src"
  using assms by (auto simp: relocate_n_def split: outcome.splits prod.splits)

lemma relocate_n_copy_Returned:
  assumes "relocate_n tr src first count dst d_first e = Returned u ((src', dst'), e')"
    "\<not> nothrow_move_constructible tr" "copy_constructible tr"
  shows "src' = src"
  using assms by (auto simp: relocate_n_def split: outcome.splits prod.splits)

lemma set_block_same [simp]: "set_block v (block (data_m v)) = v"
  by (simp add: set_block_def)

lemma PushBack_with_copy_path:
  assumes "PushBack_with ex b tr x (v, e) = Thrown ex' (v', e')"
    "\<not> nothrow_move_constructible tr" "copy_constructible tr"
  shows "v' = v"
  using assms
  by (auto simp: PushBack_with_def Let_def RawMemory_Swap_def
      split: outcome.splits prod.splits option.splits if_splits
      dest: relocate_n_copy_Thrown relocate_n_copy_Returned)

text \<open>
  C1, at the failing input: an element type like \<^verbatim>\<open>std::string\<close> (its move
  constructor is \<^verbatim>\<open>noexcept\<close> and leaves the source empty, its copy constructor
  may throw), the vector \<open>{"ab"}\<close> with size 1 and capacity 1, and
  \<^verbatim>\<open>PushBack(const T&)\<close> of \<open>"cd"\<close> when the allocation succeeds and the
  copy construction of the new element throws. \<^verbatim>\<open>PushBack\<close> has moved the
  element into the new block before it constructs the new one: the call leaves by the
  exception with the size 1 and the capacity 1, and the element is the moved-from, empty
  string. \<^verbatim>\<open>EmplaceBack\<close> on the same input, which constructs the new element
  first, leaves the vector as it was.
\<close>

theorem PushBack_throw_leaves_moved_from:
  "PushBack string_traits ''cd'' (one_string, \<lparr>sched = [False, True], next_addr = 2\<rparr>)
     = Thrown copy_ctor_exn
        (\<lparr>data_m = \<lparr>buffer_m = Some 1, capacity_m = 1, block = [Obj []]\<rparr>, size_m = 1\<rparr>,
         \<lparr>sched = [], next_addr = 3\<rparr>) \<and>
   contents one_string = [Obj ''ab''] \<and>
   contents \<lparr>data_m = \<lparr>buffer_m = Some 1, capacity_m = 1, block = [Obj []]\<rparr>, size_m = 1\<rparr>
     = [Obj ([] :: string)] \<and>
   EmplaceBack string_traits ''cd'' (one_string, \<lparr>sched = [False, True], next_addr = 2\<rparr>)
     = Thrown args_ctor_exn (one_string, \<lparr>sched = [], next_addr = 3\<rparr>)"
  by code_simp

section \<open>The operations keep the invariant when they return\<close>

lemma uninit_value_loop_Returned:
  "uninit_value_loop tr m first current count e = Returned u (m', e') \<Longrightarrow>
     length m' = length m \<and> (count = 0 \<or> current + count \<le> length m) \<and>
     (\<forall>i<length m. m' ! i =
        (if current \<le> i \<and> i < current + count then Obj (value_init tr) else m ! i))"
proof (induction count arbitrary: m current e)
  case 0
  then show ?case by auto
next
  case (Suc count)
  from Suc.prems obtain m1 e1 u1 where
    c: "construct_at value_ctor_exn True m current (value_init tr) e = Returned u1 (m1, e1)"
    and r: "uninit_value_loop tr m1 first (Suc current) count e1 = Returned u (m', e')"
    by (auto split: outcome.splits prod.splits)
  from construct_at_Returned [OF c] have d1: "current < length m" "m1 = m[current := Obj (value_init tr)]"
    by simp_all
  note ih = Suc.IH [OF r]
  have "length m' = length m" using ih d1 by simp
  moreover have "current + Suc count \<le> length m" using ih d1 by auto
  moreover have "\<forall>i<length m. m' ! i =
        (if current \<le> i \<and> i < current + Suc count then Obj (value_init tr) else m ! i)"
    using ih d1 by (auto simp: nth_list_update)
  ultimately show ?case by simp
qed

lemma Vector_sized_invariant:
  assumes "Vector_sized tr n e = Returned v e'"
  shows "invariant v" "size_m v = n" "capacity_m (data_m v) = n"
    "\<forall>i<n. block (data_m v) ! i = Obj (value_init tr)"
proof -
  from assms obtain d e1 m where
    a: "RawMemory_ctor n e = Returned d e1"
    and l: "uninit_value_loop tr (block d) 0 0 n e1 = Returned () (m, e')"
    and v: "v = \<lparr>data_m = d\<lparr>block := m\<rparr>, size_m = n\<rparr>"
    by (auto simp: Vector_sized_def uninitialized_value_construct_n_def split: outcome.splits prod.splits)
  note A = RawMemory_ctor_Returned [OF a]
  note L = uninit_value_loop_Returned [OF l]
  show "size_m v = n" "capacity_m (data_m v) = n" using v A by simp_all
  show c: "\<forall>i<n. block (data_m v) ! i = Obj (value_init tr)" using v A L by simp
  show "invariant v"
  proof (rule invariantI)
    show "size_m v \<le> capacity_m (data_m v)" using v A by simp
    show "length (block (data_m v)) = capacity_m (data_m v)" using v A L by simp
    show "(buffer_m (data_m v) = None) = (capacity_m (data_m v) = 0)" using v A by simp
    show "\<And>i. i < size_m v \<Longrightarrow> is_obj (block (data_m v) ! i)" using c v by simp
    show "\<And>i. size_m v \<le> i \<Longrightarrow> i < capacity_m (data_m v) \<Longrightarrow> block (data_m v) ! i = Raw"
      using v A by simp
  qed
qed

lemma Vector_default_invariant: "invariant Vector_default"
  by (simp add: invariant_def Vector_default_def RawMemory_default_def)

lemma swap_objects_eq: "swap_objects (a, b) = (b, a)"
  by (simp add: swap_objects_def RawMemory_Swap_def)

lemma PushBack_with_cells:
  assumes inv: "invariant v" and r: "PushBack_with ex b tr x (v, e) = Returned u (v', e')"
  shows "size_m v' = Suc (size_m v)" "size_m v' \<le> capacity_m (data_m v')"
    "length (block (data_m v')) = capacity_m (data_m v')"
    "(buffer_m (data_m v') = None) = (capacity_m (data_m v') = 0)"
    "\<forall>i<capacity_m (data_m v'). block (data_m v') ! i =
       (if i < size_m v then block (data_m v) ! i else if i = size_m v then Obj x else Raw)"
proof -
  let ?m = "block (data_m v)" and ?s = "size_m v"
  let ?c = "if ?s = 0 then 1 else ?s * 2"
  note I = invariantD [OF inv]
  have main: "size_m v' = Suc ?s \<and> size_m v' \<le> capacity_m (data_m v') \<and>
    length (block (data_m v')) = capacity_m (data_m v') \<and>
    ((buffer_m (data_m v') = None) = (capacity_m (data_m v') = 0)) \<and>
    (\<forall>i<capacity_m (data_m v'). block (data_m v') ! i =
       (if i < ?s then ?m ! i else if i = ?s then Obj x else Raw))"
  proof (cases "?s = capacity_m (data_m v)")
    case full: True
    from r full obtain new_data e1 o2 n2 e2 n3 o4 where
      a: "RawMemory_ctor ?c e = Returned new_data e1"
      and rl: "relocate_n tr ?m 0 ?s (block new_data) 0 e1 = Returned () ((o2, n2), e2)"
      and c: "construct_at ex b n2 ?s x e2 = Returned () (n3, e')"
      and d: "destroy_n o2 0 ?s = Some o4"
      and v': "v' = \<lparr>data_m = (data_m v)\<lparr>buffer_m := buffer_m new_data,
           capacity_m := capacity_m new_data, block := n3\<rparr>, size_m = Suc ?s\<rparr>"
      by (auto simp: PushBack_with_def Capacity_def Let_def RawMemory_Swap_def
          split: outcome.splits prod.splits option.splits if_splits)
    note A = RawMemory_ctor_Returned [OF a]
    note R = relocate_n_Returned [OF rl]
    note C = construct_at_Returned [OF c]
    have cells: "\<forall>i<?c. n3 ! i = (if i < ?s then ?m ! i else if i = ?s then Obj x else Raw)"
      using A R C by (auto simp: nth_list_update)
    have "?s < ?c" by simp
    then show ?thesis using v' A R C cells by (simp split: if_splits)
  next
    case False
    with I have room: "?s < capacity_m (data_m v)" by simp
    from r False obtain m1 where
      c: "construct_at ex b ?m ?s x e = Returned () (m1, e')"
      and v': "v' = (v\<lparr>data_m := (data_m v)\<lparr>block := m1\<rparr>\<rparr>)\<lparr>size_m := Suc ?s\<rparr>"
      by (auto simp: PushBack_with_def Capacity_def set_block_def split: outcome.splits prod.splits)
    note C = construct_at_Returned [OF c]
    have "\<forall>i<capacity_m (data_m v). m1 ! i = (if i < ?s then ?m ! i else if i = ?s then Obj x else Raw)"
      using C I by (auto simp: nth_list_update)
    then show ?thesis using v' C I room by (simp add: set_block_def)
  qed
  from main show "size_m v' = Suc ?s" "size_m v' \<le> capacity_m (data_m v')"
    "length (block (data_m v')) = capacity_m (data_m v')"
    "(buffer_m (data_m v') = None) = (capacity_m (data_m v') = 0)"
    "\<forall>i<capacity_m (data_m v'). block (data_m v') ! i =
       (if i < ?s then ?m ! i else if i = ?s then Obj x else Raw)" by simp_all
qed

lemma PushBack_with_invariant:
  assumes inv: "invariant v" and r: "PushBack_with ex b tr x (v, e) = Returned u (v', e')"
  shows "invariant v'" "contents v' = contents v @ [Obj x]"
proof -
  note I = invariantD [OF inv]
  note C = PushBack_with_cells [OF inv r]
  show "invariant v'"
  proof (rule invariantI)
    show "size_m v' \<le> capacity_m (data_m v')" by (rule C(2))
    show "length (block (data_m v')) = capacity_m (data_m v')" by (rule C(3))
    show "(buffer_m (data_m v') = None) = (capacity_m (data_m v') = 0)" by (rule C(4))
    show "\<And>i. i < size_m v' \<Longrightarrow> is_obj (block (data_m v') ! i)"
    proof -
      fix i assume "i < size_m v'"
      then have "i \<le> size_m v" "i < capacity_m (data_m v')" using C(1,2) by simp_all
      then show "is_obj (block (data_m v') ! i)" using C(5) I(4) [of i] by auto
    qed
    show "\<And>i. size_m v' \<le> i \<Longrightarrow> i < capacity_m (data_m v') \<Longrightarrow> block (data_m v') ! i = Raw"
      using C(1,5) by simp
  qed
  have "\<forall>i\<le>size_m v. block (data_m v') ! i =
      (if i < size_m v then block (data_m v) ! i else if i = size_m v then Obj x
       else block (data_m v) ! (i - 1))"
    using C(1,2,5) by auto
  then have "take (Suc (size_m v)) (block (data_m v'))
     = take (size_m v) (take (size_m v) (block (data_m v))) @ Obj x # drop (size_m v) (take (size_m v) (block (data_m v)))"
    using I C(1,2,3) by (intro insert_cells) simp_all
  then show "contents v' = contents v @ [Obj x]" using C(1) I by (simp add: contents_def)
qed

lemma Reserve_invariant:
  assumes inv: "invariant v" and r: "Reserve tr n (v, e) = Returned u (v', e')"
  shows "invariant v'" "contents v' = contents v" "size_m v' = size_m v"
    "capacity_m (data_m v') = max n (capacity_m (data_m v))"
proof -
  let ?m = "block (data_m v)" and ?s = "size_m v"
  note I = invariantD [OF inv]
  have "invariant v' \<and> contents v' = contents v \<and> size_m v' = ?s \<and>
     capacity_m (data_m v') = max n (capacity_m (data_m v))"
  proof (cases "n \<le> capacity_m (data_m v)")
    case True
    with r inv show ?thesis by (simp add: Reserve_def max_def)
  next
    case False
    with r obtain new_data e1 o2 n2 o3 where
      a: "RawMemory_ctor n e = Returned new_data e1"
      and rl: "relocate_n tr ?m 0 ?s (block new_data) 0 e1 = Returned () ((o2, n2), e')"
      and d: "destroy_n o2 0 ?s = Some o3"
      and v': "v' = v\<lparr>data_m := (data_m v)\<lparr>buffer_m := buffer_m new_data,
           capacity_m := capacity_m new_data, block := n2\<rparr>\<rparr>"
      by (auto simp: Reserve_def RawMemory_Swap_def
          split: outcome.splits prod.splits option.splits if_splits)
    note A = RawMemory_ctor_Returned [OF a]
    note R = relocate_n_Returned [OF rl]
    have n0: "n \<noteq> 0" using False by simp
    have sn: "?s < n" using False I by simp
    have cells: "\<forall>i<n. n2 ! i = (if i < ?s then ?m ! i else Raw)" using A R by auto
    have i': "invariant v'"
    proof (rule invariantI)
      show "size_m v' \<le> capacity_m (data_m v')" using v' A sn by simp
      show "length (block (data_m v')) = capacity_m (data_m v')" using v' A R by simp
      show "(buffer_m (data_m v') = None) = (capacity_m (data_m v') = 0)" using v' A n0 by simp
      show "\<And>i. i < size_m v' \<Longrightarrow> is_obj (block (data_m v') ! i)"
        using v' cells sn I(4) by simp
      show "\<And>i. size_m v' \<le> i \<Longrightarrow> i < capacity_m (data_m v') \<Longrightarrow> block (data_m v') ! i = Raw"
        using v' cells A by simp
    qed
    have "take ?s n2 = take ?s ?m"
      using cells sn I A R by (intro take_cells_eq) auto
    then have "contents v' = contents v" using v' by (simp add: contents_def)
    with i' v' A False show ?thesis by (simp add: max_def)
  qed
  then show "invariant v'" "contents v' = contents v" "size_m v' = ?s"
    "capacity_m (data_m v') = max n (capacity_m (data_m v))" by simp_all
qed

lemma PopBack_invariant:
  assumes inv: "invariant v" and r: "PopBack v = Some v'"
  shows "invariant v'" "size_m v' = size_m v - 1" "contents v' = butlast (contents v)"
proof -
  note I = invariantD [OF inv]
  from r have s: "size_m v \<noteq> 0" and
    v': "v' = (set_block v ((block (data_m v))[size_m v - 1 := Raw]))\<lparr>size_m := size_m v - 1\<rparr>"
    by (auto simp: PopBack_def destroy_at_Some split: if_splits option.splits)
  show "size_m v' = size_m v - 1" using v' by simp
  show "invariant v'"
  proof (rule invariantI)
    show "size_m v' \<le> capacity_m (data_m v')" using v' I by (simp add: set_block_def)
    show "length (block (data_m v')) = capacity_m (data_m v')" using v' I by (simp add: set_block_def)
    show "(buffer_m (data_m v') = None) = (capacity_m (data_m v') = 0)"
      using v' I by (simp add: set_block_def)
    show "\<And>i. i < size_m v' \<Longrightarrow> is_obj (block (data_m v') ! i)"
      using v' I(4) by (simp add: set_block_def)
    show "\<And>i. size_m v' \<le> i \<Longrightarrow> i < capacity_m (data_m v') \<Longrightarrow> block (data_m v') ! i = Raw"
    proof -
      fix i assume "size_m v' \<le> i" "i < capacity_m (data_m v')"
      then have i: "size_m v - 1 \<le> i" "i < capacity_m (data_m v)" using v' by (simp_all add: set_block_def)
      show "block (data_m v') ! i = Raw"
      proof (cases "i = size_m v - 1")
        case True
        then show ?thesis using v' I i by (simp add: set_block_def)
      next
        case False
        then have "size_m v \<le> i" using i by arith
        then show ?thesis using v' I(5) [of i] i False by (simp add: set_block_def)
      qed
    qed
  qed
  have "contents v' = take (size_m v - 1) (block (data_m v))"
    using v' by (simp add: contents_def set_block_def)
  also have "\<dots> = butlast (take (size_m v) (block (data_m v)))"
    using I s by (simp add: butlast_take)
  finally show "contents v' = butlast (contents v)" by (simp add: contents_def)
qed

lemma Resize_invariant:
  assumes inv: "invariant v" and r: "Resize tr n (v, e) = Returned u (v', e')"
  shows "invariant v'" "size_m v' = n"
proof -
  let ?m = "block (data_m v)" and ?s = "size_m v"
  note I = invariantD [OF inv]
  have "invariant v' \<and> size_m v' = n"
  proof (cases "n < ?s")
    case True
    with r obtain m1 where d: "destroy_n ?m n (?s - n) = Some m1"
      and v': "v' = (v\<lparr>data_m := (data_m v)\<lparr>block := m1\<rparr>\<rparr>)\<lparr>size_m := n\<rparr>"
      by (auto simp: Resize_def set_block_def split: option.splits)
    note D = destroy_n_Some [OF d]
    have "invariant v'"
    proof (rule invariantI)
      show "size_m v' \<le> capacity_m (data_m v')" using v' I True by simp
      show "length (block (data_m v')) = capacity_m (data_m v')" using v' I D by simp
      show "(buffer_m (data_m v') = None) = (capacity_m (data_m v') = 0)" using v' I by simp
      show "\<And>i. i < size_m v' \<Longrightarrow> is_obj (block (data_m v') ! i)"
        using v' D I(4) I(1,2) True by simp
      show "\<And>i. size_m v' \<le> i \<Longrightarrow> i < capacity_m (data_m v') \<Longrightarrow> block (data_m v') ! i = Raw"
      proof -
        fix i assume "size_m v' \<le> i" "i < capacity_m (data_m v')"
        then have i: "n \<le> i" "i < length ?m" using v' I by simp_all
        then have "block (data_m v') ! i = (if n \<le> i \<and> i < n + (?s - n) then Raw else ?m ! i)"
          using v' D by simp
        then show "block (data_m v') ! i = Raw" using I(5) [of i] i I(2) True by (simp split: if_splits)
      qed
    qed
    then show ?thesis using v' by simp
  next
    case False
    show ?thesis
    proof (cases "n > ?s")
      case True
      with r False obtain u1 v1 e1 m2 where
        rs: "Reserve tr n (v, e) = Returned u1 (v1, e1)"
        and l: "uninit_value_loop tr (block (data_m v1)) (size_m v1) (size_m v1) (n - size_m v1) e1
           = Returned () (m2, e')"
        and v': "v' = (v1\<lparr>data_m := (data_m v1)\<lparr>block := m2\<rparr>\<rparr>)\<lparr>size_m := n\<rparr>"
        by (auto simp: Resize_def set_block_def uninitialized_value_construct_n_def
            split: outcome.splits prod.splits)
      note R = Reserve_invariant [OF inv rs]
      note J = invariantD [OF R(1)]
      note L = uninit_value_loop_Returned [OF l]
      have cap: "n \<le> capacity_m (data_m v1)" using R by simp
      have "invariant v'"
      proof (rule invariantI)
        show "size_m v' \<le> capacity_m (data_m v')" using v' cap by simp
        show "length (block (data_m v')) = capacity_m (data_m v')" using v' J L by simp
        show "(buffer_m (data_m v') = None) = (capacity_m (data_m v') = 0)" using v' J by simp
        show "\<And>i. i < size_m v' \<Longrightarrow> is_obj (block (data_m v') ! i)"
        proof -
          fix i assume "i < size_m v'"
          then have i: "i < n" using v' by simp
          then have "i < length (block (data_m v1))" using cap J by simp
          then have "m2 ! i = (if size_m v1 \<le> i \<and> i < size_m v1 + (n - size_m v1)
              then Obj (value_init tr) else block (data_m v1) ! i)" using L by blast
          moreover have "\<not> (size_m v1 \<le> i \<and> i < size_m v1 + (n - size_m v1)) \<Longrightarrow> i < size_m v1"
            using i by arith
          ultimately have "is_obj (m2 ! i)" using J(4) [of i] by (cases "size_m v1 \<le> i \<and> i < size_m v1 + (n - size_m v1)") simp_all
          then show "is_obj (block (data_m v') ! i)" using v' by simp
        qed
        show "\<And>i. size_m v' \<le> i \<Longrightarrow> i < capacity_m (data_m v') \<Longrightarrow> block (data_m v') ! i = Raw"
        proof -
          fix i assume "size_m v' \<le> i" "i < capacity_m (data_m v')"
          then have i: "n \<le> i" "i < capacity_m (data_m v1)" using v' by simp_all
          then have "i < length (block (data_m v1))" using J by simp
          then have "m2 ! i = (if size_m v1 \<le> i \<and> i < size_m v1 + (n - size_m v1)
              then Obj (value_init tr) else block (data_m v1) ! i)" using L by blast
          moreover have "\<not> (size_m v1 \<le> i \<and> i < size_m v1 + (n - size_m v1))" using i R True by simp
          moreover have "block (data_m v1) ! i = Raw" using J(5) [of i] i R True by simp
          ultimately show "block (data_m v') ! i = Raw" using v' by simp
        qed
      qed
      then show ?thesis using v' by simp
    next
      case F2: False
      with False have "n = ?s" by simp
      with r inv show ?thesis by (auto simp: Resize_def)
    qed
  qed
  then show "invariant v'" "size_m v' = n" by simp_all
qed

lemma Emplace_Returned_valid:
  assumes "Emplace tr (buffer_m (data_m v), p) x (v, e) = Returned it (v', e')"
  shows "p \<le> size_m v"
proof -
  from assms obtain u v1 where
    b: "(if size_m v < capacity_m (data_m v)
      then (if p = size_m v then Emplace_at_end p x (v, e) else Emplace_inside tr p x (v, e))
      else Emplace_realloc tr p x (v, e)) = Returned u (v1, e')"
    by (rule Emplace_branch)
  show ?thesis
  proof (cases "size_m v < capacity_m (data_m v)")
    case room: True
    show ?thesis
    proof (cases "p = size_m v")
      case True
      then show ?thesis by simp
    next
      case False
      with b room have "Emplace_inside tr p x (v, e) = Returned u (v1, e')" by simp
      from Emplace_inside_Returned(1) [OF this] show ?thesis by simp
    qed
  next
    case False
    with b have "Emplace_realloc tr p x (v, e) = Returned u (v1, e')" by simp
    from Emplace_realloc_Returned(5) [OF this] show ?thesis .
  qed
qed

lemma Emplace_invariant:
  assumes inv: "invariant v" and r: "Emplace tr (RawMemory_plus (data_m v) p) x (v, e) = Returned it (v', e')"
  shows "invariant v'"
proof -
  from r have r': "Emplace tr (buffer_m (data_m v), p) x (v, e) = Returned it (v', e')"
    by (simp add: RawMemory_plus_def)
  from Emplace_contents(2) [OF inv Emplace_Returned_valid [OF r'] r'] show ?thesis .
qed

lemma list_all_update:
  "list_all P st \<Longrightarrow> P v \<Longrightarrow> list_all P (st[i := v])"
  by (cases "i < length st") (auto simp: list_all_length nth_list_update)

lemma on_object_invariant:
  assumes st: "list_all invariant st"
    and f: "\<And>v r v' e'. invariant v \<Longrightarrow> f (v, e) = Returned r (v', e') \<Longrightarrow> invariant v'"
    and r: "on_object i f (st, e) = Returned u (st', e')"
  shows "list_all invariant st'"
proof -
  from r obtain r0 v' where i: "i < length st" and fr: "f (st ! i, e) = Returned r0 (v', e')"
    and st': "st' = st[i := v']"
    by (auto simp: on_object_def split: if_splits outcome.splits prod.splits)
  from st i have "invariant (st ! i)" by (simp add: list_all_length)
  from f [OF this fr] st st' show ?thesis by (simp add: list_all_update)
qed

lemma perform_invariant:
  assumes st: "list_all invariant st" and r: "perform tr op (st, e) = Returned u (st', e')"
  shows "list_all invariant st'"
proof (cases op)
  case New_default
  with st r show ?thesis by (auto simp: Vector_default_invariant)
next
  case (New_sized n)
  with st r show ?thesis
    by (auto split: outcome.splits dest: Vector_sized_invariant(1))
next
  case (New_copy i)
  with st r show ?thesis
    by (auto split: outcome.splits if_splits dest: Vector_copy_invariant)
next
  case (New_move i)
  with r have i: "i < length st" and st': "st' = st[i := Vector_default] @ [st ! i]"
    by (auto simp: Vector_move_def swap_objects_eq split: if_splits)
  from st i have "invariant (st ! i)" by (simp add: list_all_length)
  with st st' show ?thesis by (simp add: list_all_update Vector_default_invariant)
next
  case (Op_assign_copy a b)
  with r have ac: "assign_copy a b (st, e) = Returned u (st', e')" by simp
  show ?thesis
  proof (cases "a = b")
    case True
    with ac st show ?thesis by (auto simp: assign_copy_def split: if_splits)
  next
    case False
    with ac obtain u' v' where a: "a < length st"
      and f: "assign_copy_from (st ! b) (st ! a, e) = Returned u' (v', e')" and st': "st' = st[a := v']"
      by (auto simp: assign_copy_def split: if_splits outcome.splits prod.splits)
    from st a have "invariant (st ! a)" by (simp add: list_all_length)
    from assign_copy_from_invariant [OF this f] st st' show ?thesis by (simp add: list_all_update)
  qed
next
  case (Op_assign_move a b)
  with r have "assign_move a b st = Some st'" by (auto split: option.splits)
  then have "st' = st \<or> (a < length st \<and> b < length st \<and> st' = st[a := st ! b, b := st ! a])"
    by (auto simp: assign_move_def Swap_def swap_objects_eq split: if_splits)
  with st show ?thesis by (auto simp: list_all_length nth_list_update)
next
  case (Op_Reserve i n)
  with r have "on_object i (Reserve tr n) (st, e) = Returned u (st', e')" by simp
  from on_object_invariant [OF st _ this] show ?thesis by (blast dest: Reserve_invariant(1))
next
  case (Op_Resize i n)
  with r have "on_object i (Resize tr n) (st, e) = Returned u (st', e')" by simp
  from on_object_invariant [OF st _ this] show ?thesis by (blast dest: Resize_invariant(1))
next
  case (Op_PushBack i x)
  with r have "on_object i (PushBack_with copy_ctor_exn True tr x) (st, e) = Returned u (st', e')"
    by (simp add: PushBack_def [abs_def])
  from on_object_invariant [OF st _ this] show ?thesis by (blast dest: PushBack_with_invariant(1))
next
  case (Op_PushBack_move i x)
  with r have "on_object i (PushBack_with move_ctor_exn (\<not> nothrow_move_constructible tr) tr x) (st, e)
      = Returned u (st', e')"
    by (simp add: PushBack_move_def [abs_def])
  from on_object_invariant [OF st _ this] show ?thesis by (blast dest: PushBack_with_invariant(1))
next
  case (Op_PopBack i)
  with r obtain v' where i: "i < length st" and p: "PopBack (st ! i) = Some v'" and st': "st' = st[i := v']"
    by (auto split: if_splits option.splits)
  from st i have "invariant (st ! i)" by (simp add: list_all_length)
  from PopBack_invariant(1) [OF this p] st st' show ?thesis by (simp add: list_all_update)
next
  case (Op_Emplace i p x)
  with r have "on_object i (\<lambda>s. Emplace tr (RawMemory_plus (data_m (fst s)) p) x s) (st, e)
      = Returned u (st', e')" by simp
  from on_object_invariant [OF st _ this] show ?thesis by (auto dest: Emplace_invariant)
next
  case (Op_Insert i p x)
  with r have "on_object i (\<lambda>s. Emplace tr (RawMemory_plus (data_m (fst s)) p) x s) (st, e)
      = Returned u (st', e')" by (simp add: Insert_def)
  from on_object_invariant [OF st _ this] show ?thesis by (auto dest: Emplace_invariant)
next
  case (Op_EmplaceBack i x)
  with r have "on_object i (\<lambda>s. Emplace tr (RawMemory_plus (data_m (fst s)) (size_m (fst s))) x s) (st, e)
      = Returned u (st', e')"
    by (simp add: EmplaceBack_def [abs_def] case_prod_beta)
  from on_object_invariant [OF st _ this] show ?thesis by (auto dest: Emplace_invariant)
next
  case (Op_Erase i p)
  with r have "on_object i (\<lambda>s. Erase tr (RawMemory_plus (data_m (fst s)) p) s) (st, e)
      = Returned u (st', e')" by simp
  from on_object_invariant [OF st _ this] show ?thesis
    by (auto simp: RawMemory_plus_def dest: Erase_invariant)
next
  case (Op_Swap a b)
  with r have "Swap a b st = Some st'" by (auto split: option.splits)
  then have "st' = st \<or> (a < length st \<and> b < length st \<and> st' = st[a := st ! b, b := st ! a])"
    by (auto simp: Swap_def swap_objects_eq split: if_splits)
  with st show ?thesis by (auto simp: list_all_length nth_list_update)
qed

lemma perform_all_invariant:
  "list_all invariant st \<Longrightarrow> perform_all tr ops (st, e) = Some (st', e') \<Longrightarrow> list_all invariant st'"
proof (induction ops arbitrary: st e)
  case Nil
  then show ?case by simp
next
  case (Cons op ops)
  from Cons.prems(2) obtain u st1 e1 where p: "perform tr op (st, e) = Returned u (st1, e1)"
    and r: "perform_all tr ops (st1, e1) = Some (st', e')"
    by (auto split: outcome.splits)
  from Cons.IH [OF perform_invariant [OF Cons.prems(1) p] r] show ?case .
qed

section \<open>The invariant and exceptions of the element type\<close>

text \<open>
  C9, at the failing input: an element type whose copy assignment may throw; the
  operations \<open>a = Vector(2)\<close>, \<open>b = Vector(1)\<close>, which return with two vectors that
  satisfy the class invariant; then the copy assignment \<open>a = b\<close>, in which the first
  copy assignment of an element throws. \<^verbatim>\<open>operator=\<close> has destroyed the
  element of \<open>a\<close> at index 1 and has not yet written \<^verbatim>\<open>size_\<close>: the call
  leaves by the exception with \<open>a\<close> of size 2 and cell 1 raw. The size is at most the
  capacity, but the invariant does not hold of this state, and the destructor of \<open>a\<close>,
  which destroys \<open>size\<close> elements, has undefined behaviour on it.
\<close>

theorem copy_assignment_throw_breaks_invariant:
  "perform_all string_traits [New_sized 2, New_sized 1]
     ([], \<lparr>sched = [False, False, False, False, False, True], next_addr = 1\<rparr>)
     = Some ([two_empty_strings, one_empty_string], \<lparr>sched = [True], next_addr = 3\<rparr>) \<and>
   list_all invariant [two_empty_strings, one_empty_string] \<and>
   perform string_traits (Op_assign_copy 0 1)
     ([two_empty_strings, one_empty_string], \<lparr>sched = [True], next_addr = 3\<rparr>)
     = Thrown copy_assign_exn
        ([\<lparr>data_m = \<lparr>buffer_m = Some 1, capacity_m = 2, block = [Obj [], Raw]\<rparr>, size_m = 2\<rparr>,
          one_empty_string], \<lparr>sched = [], next_addr = 3\<rparr>) \<and>
   \<not> invariant \<lparr>data_m = \<lparr>buffer_m = Some 1, capacity_m = 2, block = [Obj ([] :: string), Raw]\<rparr>,
        size_m = 2\<rparr> \<and>
   at_index \<lparr>data_m = \<lparr>buffer_m = Some 1, capacity_m = 2, block = [Obj ([] :: string), Raw]\<rparr>,
        size_m = 2\<rparr> 1 = None \<and>
   Vector_dtor \<lparr>data_m = \<lparr>buffer_m = Some 1, capacity_m = 2, block = [Obj ([] :: string), Raw]\<rparr>,
        size_m = 2\<rparr> = None"
  by code_simp

text \<open>
  A second state of the same kind: \<^verbatim>\<open>Emplace\<close> inside a block with room, for
  an element type whose move assignment may throw. The last element has been
  move-constructed into the cell at index \<open>size\<close> when \<^verbatim>\<open>std::move_backward\<close>
  throws: the call leaves with a constructed object past the live range.
\<close>

lemma Emplace_throw_leaves_object_past_size:
  "invariant three_ints \<and>
   Emplace throwing_assign_traits (RawMemory_plus (data_m three_ints) 0) 7
      (three_ints, \<lparr>sched = [False, True], next_addr = 2\<rparr>)
     = Thrown move_assign_exn
        (\<lparr>data_m = \<lparr>buffer_m = Some 1, capacity_m = 4, block = [Obj 1, Obj 42, Obj 2, Obj 2]\<rparr>,
           size_m = 3\<rparr>, \<lparr>sched = [], next_addr = 2\<rparr>) \<and>
   \<not> invariant \<lparr>data_m = \<lparr>buffer_m = Some 1, capacity_m = 4,
        block = [Obj 1, Obj 42, Obj 2, Obj (2::int)]\<rparr>, size_m = 3\<rparr>"
  by code_simp

section \<open>Reserve within the capacity\<close>

text \<open>
  C6. For every vector and every \<open>n \<le> Capacity()\<close>, \<^verbatim>\<open>Reserve(n)\<close>
  returns with the vector as it was: the capacity, the size and every cell of the block
  are unchanged, and so is the address \<open>buffer_m\<close> of the block. The environment is
  unchanged too: \<^verbatim>\<open>operator new\<close> was not called (\<open>next_addr\<close>) and no
  step that may throw ran (\<open>sched\<close>).
\<close>

theorem Reserve_within_capacity_is_noop:
  "n \<le> Capacity v \<Longrightarrow> Reserve tr n (v, e) = Returned () (v, e)"
  by (simp add: Reserve_def Capacity_def)

theorem Reserve_within_capacity_witness:
  "Reserve int_traits 2 (three_ints, \<lparr>sched = [True], next_addr = 2\<rparr>)
   = Returned () (three_ints, \<lparr>sched = [True], next_addr = 2\<rparr>)"
  using Reserve_within_capacity_is_noop [of 2 three_ints]
  by (simp add: three_ints_def Capacity_def)

section \<open>Move construction\<close>

text \<open>
  C8. The move constructor is a total function of the source alone: it takes no
  environment, so it runs no step that can throw and no operation of the element type
  (no copy). The new vector is the source as it was, with its block (the same address
  \<open>buffer_m\<close>), its size and its capacity, and the source is left as a
  default-constructed vector, with \<open>Size() = 0\<close>.
\<close>

theorem Vector_move_steals:
  "Vector_move s = (s, Vector_default) \<and>
   Size (snd (Vector_move s)) = 0 \<and> Capacity (snd (Vector_move s)) = 0 \<and>
   Size (fst (Vector_move s)) = Size s \<and> Capacity (fst (Vector_move s)) = Capacity s \<and>
   contents (fst (Vector_move s)) = contents s \<and>
   buffer_m (data_m (fst (Vector_move s))) = buffer_m (data_m s)"
  by (simp add: Vector_move_def swap_objects_def RawMemory_Swap_def Vector_default_def
      RawMemory_default_def Size_def Capacity_def contents_def)

end
